theory Spec2Isabelle
  imports Complex_Main "HOL-Library.AList"
begin

section \<open>Characters and strings as Python sees them\<close>

text \<open>
  Texts are modelled as HOL strings restricted to the ASCII range. The character classes
  below are those of Python's \<^verbatim>\<open>re\<close> module and of \<^verbatim>\<open>str.split()\<close> on ASCII input:
  whitespace is \<^verbatim>\<open>\t \n \v \f \r\<close>, the separators \<^verbatim>\<open>0x1C..0x1F\<close> and the blank; a digit
  is one of 0..9; a word character is a letter, a digit or the underscore.
\<close>

abbreviation NL :: char where
  "NL \<equiv> CHR 0x0A"

definition whitespace :: "char list" where
  "whitespace = [CHR 0x09, CHR 0x0A, CHR 0x0B, CHR 0x0C, CHR 0x0D,
                 CHR 0x1C, CHR 0x1D, CHR 0x1E, CHR 0x1F, CHR '' '']"

definition digits :: "char list" where
  "digits = ''0123456789''"

definition word_chars :: "char list" where
  "word_chars = ''abcdefghijklmnopqrstuvwxyzABCDEFGHIJKLMNOPQRSTUVWXYZ0123456789_''"

definition lower :: "char \<Rightarrow> char" where
  "lower c = (let n = (of_char c :: nat) in if 65 \<le> n \<and> n \<le> 90 then char_of (n + 32) else c)"

text \<open>\<^verbatim>\<open>str.split(sep)\<close> with an explicit one-character separator: the pieces between the
  separators, empty pieces included; the empty string splits into one empty piece.\<close>

fun split_on :: "char \<Rightarrow> string \<Rightarrow> string list" where
  "split_on sep [] = [[]]"
| "split_on sep (x # xs) =
     (if x = sep then [] # split_on sep xs
      else (case split_on sep xs of [] \<Rightarrow> [[x]] | w # ws \<Rightarrow> (x # w) # ws))"

section \<open>Regular expressions with Python's backtracking order\<close>

text \<open>
  The patterns of the source are written as terms of \<open>regex\<close>. \<open>Alt r s\<close> tries \<open>r\<close> first,
  \<open>Star r\<close> is greedy, \<open>Group n r\<close> is the capturing group number \<open>n\<close>; a non-capturing group
  \<^verbatim>\<open>(?:r)\<close> is \<open>r\<close> itself, \<^verbatim>\<open>r?\<close> is \<open>Alt r Eps\<close>, \<^verbatim>\<open>r+\<close> is \<open>some r\<close>.
\<close>

datatype regex =
    Chars "char list"
  | NotChars "char list"
  | Eps
  | Seq regex regex
  | Alt regex regex
  | Star regex
  | Group nat regex

type_synonym captures = "nat \<Rightarrow> string option"

definition char_in :: "bool \<Rightarrow> char \<Rightarrow> char list \<Rightarrow> bool" where
  "char_in ci x cs = (if ci then lower x \<in> set (map lower cs) else x \<in> set cs)"

text \<open>One greedy iteration after the other; an iteration that consumes nothing is not
  repeated. The fuel is the length of the text, which bounds the number of iterations.\<close>

fun star_iter :: "(string \<Rightarrow> captures \<Rightarrow> (string \<times> captures) list) \<Rightarrow> nat \<Rightarrow>
    string \<Rightarrow> captures \<Rightarrow> (string \<times> captures) list" where
  "star_iter f 0 s c = [(s, c)]"
| "star_iter f (Suc n) s c =
     concat (map (\<lambda>(s', c'). if length s' < length s then star_iter f n s' c' else []) (f s c))
     @ [(s, c)]"

text \<open>\<open>rmatch ci r s c\<close> lists every way \<open>r\<close> matches a prefix of \<open>s\<close>, as the rest of the text
  and the captures, in the order in which a backtracking matcher tries them; \<open>ci\<close> is
  \<^verbatim>\<open>re.IGNORECASE\<close>.\<close>

fun rmatch :: "bool \<Rightarrow> regex \<Rightarrow> string \<Rightarrow> captures \<Rightarrow> (string \<times> captures) list" where
  "rmatch ci (Chars cs) s c =
     (case s of [] \<Rightarrow> [] | x # xs \<Rightarrow> if char_in ci x cs then [(xs, c)] else [])"
| "rmatch ci (NotChars cs) s c =
     (case s of [] \<Rightarrow> [] | x # xs \<Rightarrow> if char_in ci x cs then [] else [(xs, c)])"
| "rmatch ci Eps s c = [(s, c)]"
| "rmatch ci (Seq r1 r2) s c =
     concat (map (\<lambda>(s', c'). rmatch ci r2 s' c') (rmatch ci r1 s c))"
| "rmatch ci (Alt r1 r2) s c = rmatch ci r1 s c @ rmatch ci r2 s c"
| "rmatch ci (Star r) s c = star_iter (\<lambda>s' c'. rmatch ci r s' c') (length s) s c"
| "rmatch ci (Group n r) s c =
     map (\<lambda>(s', c'). (s', c'(n \<mapsto> take (length s - length s') s))) (rmatch ci r s c)"

text \<open>\<^verbatim>\<open>re.search\<close>, as a truth value: is there a match starting at some position?\<close>

fun re_search :: "bool \<Rightarrow> regex \<Rightarrow> string \<Rightarrow> bool" where
  "re_search ci r [] = (rmatch ci r [] Map.empty \<noteq> [])"
| "re_search ci r (x # xs) = (rmatch ci r (x # xs) Map.empty \<noteq> [] \<or> re_search ci r xs)"

text \<open>\<^verbatim>\<open>re.fullmatch\<close>, as a truth value: does the pattern match the whole text?\<close>

definition re_fullmatch :: "bool \<Rightarrow> regex \<Rightarrow> string \<Rightarrow> bool" where
  "re_fullmatch ci r s = ([] \<in> set (map fst (rmatch ci r s Map.empty)))"

text \<open>The language of a pattern: the texts it matches as a whole. It is the meaning of the
  pattern independent of the matcher, and says what "the text contains a phrase of the
  pattern" is.\<close>

inductive_set star_lang :: "string set \<Rightarrow> string set" for A :: "string set" where
  star_empty: "[] \<in> star_lang A"
| star_more: "u \<in> A \<Longrightarrow> u \<noteq> [] \<Longrightarrow> v \<in> star_lang A \<Longrightarrow> u @ v \<in> star_lang A"

primrec lang :: "bool \<Rightarrow> regex \<Rightarrow> string set" where
  "lang ci (Chars cs) = {[x] | x. char_in ci x cs}"
| "lang ci (NotChars cs) = {[x] | x. \<not> char_in ci x cs}"
| "lang ci Eps = {[]}"
| "lang ci (Seq r1 r2) = {u @ v | u v. u \<in> lang ci r1 \<and> v \<in> lang ci r2}"
| "lang ci (Alt r1 r2) = lang ci r1 \<union> lang ci r2"
| "lang ci (Star r) = star_lang (lang ci r)"
| "lang ci (Group n r) = lang ci r"

definition lit :: "string \<Rightarrow> regex" where
  "lit s = foldr (\<lambda>ch r. Seq (Chars [ch]) r) s Eps"

definition seqs :: "regex list \<Rightarrow> regex" where
  "seqs rs = foldr Seq rs Eps"

definition opt :: "regex \<Rightarrow> regex" where
  "opt r = Alt r Eps"

definition some :: "regex \<Rightarrow> regex" where
  "some r = Seq r (Star r)"

definition ws :: regex where
  "ws = Star (Chars whitespace)"

section \<open>The section classifier\<close>

text \<open>The table \<^verbatim>\<open>self.section_patterns\<close>, in the insertion order of the dictionary.\<close>

definition section_patterns :: "(string \<times> regex) list" where
  "section_patterns =
    [(''risk_factors'',
        seqs [opt (Group 1 (seqs [lit ''Item'', ws, lit ''1A'', opt (lit ''.''), ws])),
              lit ''Risk'', ws, lit ''Factors'']),
     (''mda'',
        seqs [opt (Group 1 (seqs [lit ''Item'', ws, lit ''7'', opt (lit ''.''), ws])),
              lit ''Management'', opt (Chars [CHR 0x27]), opt (lit ''s''), ws,
              lit ''Discussion'', ws, lit ''and'', ws, lit ''Analysis'']),
     (''business'',
        seqs [opt (Group 1 (seqs [lit ''Item'', ws, lit ''1'', opt (lit ''.''), ws])),
              lit ''Business'']),
     (''financial_statements'',
        seqs [opt (Group 1 (seqs [lit ''Item'', ws, lit ''8'', opt (lit ''.''), ws])),
              lit ''Financial'', ws, lit ''Statements'']),
     (''market_risk'',
        seqs [opt (Group 1 (seqs [lit ''Item'', ws, lit ''7A'', opt (lit ''.''), ws])),
              lit ''Quantitative'', ws, lit ''and'', ws, lit ''Qualitative'', ws,
              lit ''Disclosures'', ws, Chars ''Aa'', lit ''bout'', ws, lit ''Market'', ws,
              lit ''Risk''])]"

text \<open>\<^verbatim>\<open>_identify_section\<close>: the tag of the first pattern found anywhere in the text.\<close>

fun first_match :: "(string \<times> regex) list \<Rightarrow> string \<Rightarrow> string" where
  "first_match [] text = ''other''"
| "first_match ((section_type, pattern) # ps) text =
     (if re_search True pattern text then section_type else first_match ps text)"

definition identify_section :: "string \<Rightarrow> string" where
  "identify_section text = first_match section_patterns text"

section \<open>The segmenter\<close>

text \<open>The local variables of \<^verbatim>\<open>_split_into_sections\<close> are the triple
  \<open>(sections, current_text, current_type)\<close>. \<open>flush\<close> is the statement
  \<^verbatim>\<open>if current_text: sections.append((current_text, current_type))\<close>.\<close>

type_synonym seg_state = "(string \<times> string) list \<times> string \<times> string"

fun flush :: "seg_state \<Rightarrow> (string \<times> string) list" where
  "flush (secs, current_text, current_type) =
     (if current_text \<noteq> [] then secs @ [(current_text, current_type)] else secs)"

text \<open>The body of the loop, for one line.\<close>

fun section_step :: "seg_state \<Rightarrow> string \<Rightarrow> seg_state" where
  "section_step (secs, current_text, current_type) line =
     (let section_type = identify_section line in
      if section_type \<noteq> ''other'' then
        (flush (secs, current_text, current_type), line, section_type)
      else (secs, current_text @ NL # line, current_type))"

definition split_into_sections :: "string \<Rightarrow> (string \<times> string) list" where
  "split_into_sections text =
     flush (foldl section_step ([], [], ''other'') (split_on NL text))"

section \<open>Cleaning\<close>

text \<open>\<^verbatim>\<open>str.split()\<close> without argument, \<^verbatim>\<open>str.join\<close>, \<^verbatim>\<open>str.strip()\<close> and \<^verbatim>\<open>re.sub\<close>.\<close>

definition is_space :: "char \<Rightarrow> bool" where
  "is_space c = (c \<in> set whitespace)"

function split_ws :: "string \<Rightarrow> string list" where
  "split_ws [] = []"
| "split_ws (x # xs) =
     (if is_space x then split_ws xs
      else (x # takeWhile (\<lambda>c. \<not> is_space c) xs) # split_ws (dropWhile (\<lambda>c. \<not> is_space c) xs))"
  by pat_completeness auto
termination
  by (relation "measure length") (auto simp: length_dropWhile_le less_Suc_eq_le)

fun join :: "string \<Rightarrow> string list \<Rightarrow> string" where
  "join sep [] = []"
| "join sep [x] = x"
| "join sep (x # y # ys) = x @ sep @ join sep (y # ys)"

definition strip :: "string \<Rightarrow> string" where
  "strip s = rev (dropWhile is_space (rev (dropWhile is_space s)))"

fun re_sub :: "bool \<Rightarrow> regex \<Rightarrow> string \<Rightarrow> string \<Rightarrow> string" where
  "re_sub ci r repl s =
     (case rmatch ci r s Map.empty of
        [] \<Rightarrow> (case s of [] \<Rightarrow> [] | x # xs \<Rightarrow> x # re_sub ci r repl xs)
      | (rest, c) # _ \<Rightarrow>
          (if length rest < length s then repl @ re_sub ci r repl rest
           else (case s of [] \<Rightarrow> repl | x # xs \<Rightarrow> repl @ x # re_sub ci r repl xs)))"

declare re_sub.simps [simp del]

definition clean_text :: "string \<Rightarrow> string" where
  "clean_text text =
     (let text1 = join '' '' (split_ws text);
          text2 = re_sub False
                    (NotChars (word_chars @ whitespace @ ''.,;:-()'' @ [CHR 0x27, CHR 0x22] @ ''$%''))
                    '' '' text1;
          text3 = re_sub False (some (Chars whitespace)) '' '' text2
      in strip text3)"

section \<open>The metric extractor\<close>

datatype error = TypeError | ValueError | AttributeError | KeyError | IndexError | EngineError

text \<open>\<^verbatim>\<open>re.finditer\<close>: the captures of the non-overlapping matches, from left to right. At
  each position the match is the first one in backtracking order.\<close>

fun re_finditer :: "bool \<Rightarrow> regex \<Rightarrow> string \<Rightarrow> captures list" where
  "re_finditer ci r s =
     (case rmatch ci r s Map.empty of
        [] \<Rightarrow> (case s of [] \<Rightarrow> [] | x # xs \<Rightarrow> re_finditer ci r xs)
      | (rest, c) # _ \<Rightarrow>
          c # (if length rest < length s then re_finditer ci r rest
               else (case s of [] \<Rightarrow> [] | x # xs \<Rightarrow> re_finditer ci r xs)))"

declare re_finditer.simps [simp del]

text \<open>
  Floating-point numbers are modelled by the rationals they denote. \<open>float_decimal\<close> is
  \<^verbatim>\<open>float(s)\<close> on an unsigned decimal literal: digits, then optionally a point and more
  digits. These are the only strings the two patterns below can capture; any other string
  is reported as \<open>ValueError\<close>.
\<close>

definition is_digit :: "char \<Rightarrow> bool" where
  "is_digit c = (c \<in> set digits)"

definition nat_of_digits :: "string \<Rightarrow> nat" where
  "nat_of_digits s = foldl (\<lambda>n c. 10 * n + (of_char c - 48)) 0 s"

definition float_decimal :: "string \<Rightarrow> error + rat" where
  "float_decimal s =
     (let ip = takeWhile is_digit s; tl = dropWhile is_digit s in
      if ip = [] then Inl ValueError
      else if tl = [] then Inr (of_nat (nat_of_digits ip))
      else if hd tl = CHR ''.'' \<and> list_all is_digit (drop 1 tl) \<and> drop 1 tl \<noteq> []
        then Inr (of_nat (nat_of_digits ip) + of_nat (nat_of_digits (drop 1 tl)) / 10 ^ length (drop 1 tl))
      else Inl ValueError)"

definition digit :: regex where
  "digit = Chars digits"

text \<open>\<^verbatim>\<open>\$\s*(\d+(?:,\d{3})*(?:\.\d{2})?)\s*(million|billion|trillion)?\<close>\<close>

definition currency_pattern :: regex where
  "currency_pattern =
     seqs [Chars ''$'', ws,
           Group 1 (seqs [some digit, Star (seqs [lit '','', digit, digit, digit]),
                          opt (seqs [lit ''.'', digit, digit])]),
           ws,
           opt (Group 2 (Alt (lit ''million'') (Alt (lit ''billion'') (lit ''trillion''))))]"

text \<open>\<^verbatim>\<open>(\d+(?:\.\d+)?)\s*%\<close>\<close>

definition percentage_pattern :: regex where
  "percentage_pattern =
     seqs [Group 1 (seqs [some digit, opt (seqs [lit ''.'', some digit])]), ws, Chars ''%'']"

definition multiplier :: "string \<Rightarrow> error + rat" where
  "multiplier w =
     (if w = ''million'' then Inr 1000000
      else if w = ''billion'' then Inr 1000000000
      else if w = ''trillion'' then Inr 1000000000000
      else Inl KeyError)"

fun map_err :: "('a \<Rightarrow> error + 'b) \<Rightarrow> 'a list \<Rightarrow> error + 'b list" where
  "map_err f [] = Inr []"
| "map_err f (x # xs) =
     (case f x of Inl e \<Rightarrow> Inl e
      | Inr y \<Rightarrow> (case map_err f xs of Inl e \<Rightarrow> Inl e | Inr ys \<Rightarrow> Inr (y # ys)))"

text \<open>The body of the loop over the currency matches: \<^verbatim>\<open>match.group(1)\<close> without its
  commas, scaled when \<^verbatim>\<open>match.group(2)\<close> is there.\<close>

definition currency_amount :: "captures \<Rightarrow> error + rat" where
  "currency_amount m =
     (case m 1 of None \<Rightarrow> Inl AttributeError
      | Some g1 \<Rightarrow>
          (case float_decimal (filter (\<lambda>c. c \<noteq> CHR '','') g1) of Inl e \<Rightarrow> Inl e
           | Inr amount \<Rightarrow>
               (case m 2 of None \<Rightarrow> Inr amount
                | Some g2 \<Rightarrow>
                    if g2 = [] then Inr amount
                    else (case multiplier g2 of Inl e \<Rightarrow> Inl e
                          | Inr k \<Rightarrow> Inr (amount * k)))))"

definition percentage_value :: "captures \<Rightarrow> error + rat" where
  "percentage_value m = (case m 1 of None \<Rightarrow> Inl TypeError | Some g1 \<Rightarrow> float_decimal g1)"

record metrics =
  currency_amounts :: "rat list"
  percentages :: "rat list"

definition extract_metrics :: "string \<Rightarrow> error + metrics" where
  "extract_metrics text =
     (case map_err currency_amount (re_finditer False currency_pattern text) of Inl e \<Rightarrow> Inl e
      | Inr amounts \<Rightarrow>
          (case map_err percentage_value (re_finditer False percentage_pattern text) of
             Inl e \<Rightarrow> Inl e
           | Inr percents \<Rightarrow> Inr \<lparr>currency_amounts = amounts, percentages = percents\<rparr>))"

section \<open>Python values, metadata and filings\<close>

text \<open>\<open>pyval\<close> are the values a filter specification is made of (and \<^verbatim>\<open>Any\<close>); \<open>mval\<close> are
  the scalar values a metadata record holds. A dictionary is an association list in
  insertion order, read with \<open>map_of\<close> and written with \<open>AList.update\<close>.\<close>

datatype pyval =
    PNone
  | PBool bool
  | PInt int
  | PStr string
  | PList "pyval list"
  | PDict "(string \<times> pyval) list"

datatype mval = MStr string | MInt int | MBool bool

type_synonym pydict = "(string \<times> mval) list"

record 'd SECDocument =
  filing_id :: string
  company_name :: string
  ticker :: string
  filing_type :: string
  filing_date :: 'd
  document_text :: string
  metadata :: "(string \<times> pyval) list"
  sections :: "(string \<times> string) list"

text \<open>What the processor takes from outside the repository: the text splitter's
  \<^verbatim>\<open>split_text\<close>, and \<^verbatim>\<open>str\<close> on a float and on a \<^verbatim>\<open>datetime\<close>.\<close>

record 'd externals =
  split_text :: "string \<Rightarrow> string list"
  str_float :: "rat \<Rightarrow> string"
  str_datetime :: "'d \<Rightarrow> string"

text \<open>A chunk is the dictionary \<^verbatim>\<open>{"text": ..., "metadata": {...}}\<close>.\<close>

record chunk =
  chunk_text :: string
  chunk_metadata :: pydict

text \<open>\<^verbatim>\<open>str\<close> on a natural number, an integer and a metadata value.\<close>

function str_nat :: "nat \<Rightarrow> string" where
  "str_nat n = (if n < 10 then [char_of (48 + n)] else str_nat (n div 10) @ [char_of (48 + n mod 10)])"
  by pat_completeness auto
termination
  by (relation "measure id") auto

declare str_nat.simps [simp del]

definition str_int :: "int \<Rightarrow> string" where
  "str_int i = (if i < 0 then CHR ''-'' # str_nat (nat (- i)) else str_nat (nat i))"

fun py_str :: "mval \<Rightarrow> string" where
  "py_str (MStr s) = s"
| "py_str (MInt i) = str_int i"
| "py_str (MBool b) = (if b then ''True'' else ''False'')"

section \<open>The document processor\<close>

text \<open>The dictionary appended for chunk number \<open>i\<close> of \<open>n_chunks\<close> in a section.\<close>

definition make_chunk ::
  "'d externals \<Rightarrow> 'd SECDocument \<Rightarrow> string \<Rightarrow> nat \<Rightarrow> nat \<times> string \<Rightarrow> error + chunk" where
  "make_chunk ext document section_type n_chunks ic =
     (case ic of (i, chunk) \<Rightarrow>
      (case extract_metrics chunk of Inl e \<Rightarrow> Inl e
       | Inr metrics \<Rightarrow>
           Inr \<lparr>chunk_text = chunk,
                chunk_metadata =
                  [(''filing_id'', MStr (filing_id document)),
                   (''company_name'', MStr (company_name document)),
                   (''ticker'', MStr (ticker document)),
                   (''filing_type'', MStr (filing_type document)),
                   (''filing_date'', MStr (str_datetime ext (filing_date document))),
                   (''section'', MStr section_type),
                   (''chunk_index'', MInt (int i)),
                   (''total_chunks'', MInt (int n_chunks)),
                   (''currency_amounts'',
                      MStr (join '','' (map (str_float ext) (currency_amounts metrics)))),
                   (''percentages'',
                      MStr (join '','' (map (str_float ext) (percentages metrics)))),
                   (''has_metrics'',
                      MStr (if currency_amounts metrics \<noteq> [] \<or> percentages metrics \<noteq> []
                            then ''true'' else ''false''))]\<rparr>))"

text \<open>The body of the loop over the sections: clean, split, one chunk per window.\<close>

definition process_section ::
  "'d externals \<Rightarrow> 'd SECDocument \<Rightarrow> string \<times> string \<Rightarrow> error + chunk list" where
  "process_section ext document sec =
     (case sec of (section_text, section_type) \<Rightarrow>
      (let cleaned_text = clean_text section_text;
           text_chunks = split_text ext cleaned_text
       in map_err (make_chunk ext document section_type (length text_chunks))
            (enumerate 0 text_chunks)))"

definition process_document :: "'d externals \<Rightarrow> 'd SECDocument \<Rightarrow> error + chunk list" where
  "process_document ext document =
     (if document_text document \<noteq> [] then
        (case map_err (process_section ext document)
                (split_into_sections (document_text document)) of
           Inl e \<Rightarrow> Inl e
         | Inr css \<Rightarrow> Inr (concat css))
      else Inr [])"

section \<open>The indexer adapter\<close>

text \<open>The key of one record:
  \<^verbatim>\<open>f"{doc['metadata']['filing_id']}_{doc['metadata'].get('chunk_index', 0)}"\<close>.\<close>

definition record_id :: "chunk \<Rightarrow> error + string" where
  "record_id doc =
     (case map_of (chunk_metadata doc) ''filing_id'' of
        None \<Rightarrow> Inl KeyError
      | Some fid \<Rightarrow>
          Inr (py_str fid @ ''_'' @
               py_str (case map_of (chunk_metadata doc) ''chunk_index'' of
                         None \<Rightarrow> MInt 0 | Some v \<Rightarrow> v)))"

text \<open>\<open>add_documents\<close> yields the arguments \<open>(documents, metadatas, ids)\<close> of the one call
  \<^verbatim>\<open>self.collection.add\<close>, or \<open>None\<close> when it returns without calling the engine.\<close>

definition add_documents ::
  "chunk list \<Rightarrow> error + (string list \<times> pydict list \<times> string list) option" where
  "add_documents documents =
     (if documents = [] then Inr None
      else (let texts = map chunk_text documents;
                metadatas = map chunk_metadata documents
            in case map_err record_id documents of
                 Inl e \<Rightarrow> Inl e
               | Inr ids \<Rightarrow> Inr (Some (texts, metadatas, ids))))"

text \<open>Iterating over a value, as the comprehension \<^verbatim>\<open>for v in value["$in"]\<close> does.\<close>

fun py_iter :: "pyval \<Rightarrow> error + pyval list" where
  "py_iter (PList vs) = Inr vs"
| "py_iter (PStr s) = Inr (map (\<lambda>ch. PStr [ch]) s)"
| "py_iter (PDict d) = Inr (map (\<lambda>kv. PStr (fst kv)) d)"
| "py_iter PNone = Inl TypeError"
| "py_iter (PBool b) = Inl TypeError"
| "py_iter (PInt i) = Inl TypeError"

text \<open>The body of the loop of \<^verbatim>\<open>_build_where_clause\<close>: the condition for one item.\<close>

definition where_condition :: "string \<times> pyval \<Rightarrow> error + pyval" where
  "where_condition kv =
     (case kv of (key, val) \<Rightarrow>
      (case val of
         PDict d \<Rightarrow>
           (case map_of d ''$in'' of
              Some operand \<Rightarrow>
                (case py_iter operand of Inl e \<Rightarrow> Inl e
                 | Inr vs \<Rightarrow> Inr (PDict [(''$or'', PList (map (\<lambda>v. PDict [(key, v)]) vs))]))
            | None \<Rightarrow> Inr (PDict [(key, val)]))
       | _ \<Rightarrow> Inr (PDict [(key, val)])))"

definition build_where_clause :: "(string \<times> pyval) list option \<Rightarrow> error + pyval option" where
  "build_where_clause filter_metadata =
     (case filter_metadata of
        None \<Rightarrow> Inr None
      | Some items \<Rightarrow>
          if items = [] then Inr None
          else (case map_err where_condition items of
                  Inl e \<Rightarrow> Inl e
                | Inr conditions \<Rightarrow>
                    if length conditions = 1 then Inr (Some (hd conditions))
                    else Inr (Some (PDict [(''$and'', PList conditions)]))))"

section \<open>The result reconciler\<close>

text \<open>
  The metadata dictionaries of a result envelope are objects which the reconciler changes in
  place, so they live in a heap and the envelope holds their addresses. An absent
  (\<^verbatim>\<open>None\<close>) list of an envelope is the empty list.
\<close>

type_synonym addr = nat

type_synonym heap = "addr \<Rightarrow> pydict"

record envelope =
  documents :: "string list list"
  metadatas :: "addr list list"

text \<open>\<open>float_ok\<close> says which strings \<^verbatim>\<open>float\<close> accepts; it is a parameter. \<open>parse_floats\<close> is
  the comprehension \<^verbatim>\<open>[float(x) for x in metadata.get(key, '').split(',') if x]\<close>, as the
  list of the pieces converted.\<close>

definition parse_floats :: "(string \<Rightarrow> bool) \<Rightarrow> pydict \<Rightarrow> string \<Rightarrow> error + string list" where
  "parse_floats float_ok md key =
     (case (case map_of md key of None \<Rightarrow> MStr [] | Some v \<Rightarrow> v) of
        MStr s \<Rightarrow>
          (let xs = filter (\<lambda>x. x \<noteq> []) (split_on CHR '','' s) in
           if list_all float_ok xs then Inr xs else Inl ValueError)
      | _ \<Rightarrow> Inl AttributeError)"

definition metrics_summary :: "nat \<Rightarrow> nat \<Rightarrow> string" where
  "metrics_summary n m =
     ''Found '' @ str_nat n @ '' currency amounts and '' @ str_nat m @ '' percentage values''"

text \<open>The block under \<^verbatim>\<open>if metadata.get('has_metrics') == 'true'\<close>: the dictionary after it.\<close>

definition annotate :: "(string \<Rightarrow> bool) \<Rightarrow> pydict \<Rightarrow> error + pydict" where
  "annotate float_ok md =
     (if map_of md ''has_metrics'' = Some (MStr ''true'') then
        (case parse_floats float_ok md ''currency_amounts'' of Inl e \<Rightarrow> Inl e
         | Inr cas \<Rightarrow>
             (case parse_floats float_ok md ''percentages'' of Inl e \<Rightarrow> Inl e
              | Inr pcs \<Rightarrow>
                  Inr (AList.update ''metrics_summary''
                         (MStr (metrics_summary (length cas) (length pcs))) md)))
      else Inr md)"

text \<open>The loop of \<^verbatim>\<open>_process_results\<close> over the zipped pairs, with the heap, the list
  \<open>processed\<close> and the set \<open>seen_contents\<close>. An exception leaves the heap as it is then.\<close>

fun results_loop ::
  "(string \<Rightarrow> bool) \<Rightarrow> int \<Rightarrow> (string \<times> addr) list \<Rightarrow> heap \<Rightarrow> (string \<times> addr) list \<Rightarrow>
   string set \<Rightarrow> heap \<times> (error + (string \<times> addr) list)" where
  "results_loop float_ok limit [] h processed seen_contents = (h, Inr processed)"
| "results_loop float_ok limit ((doc, a) # rest) h processed seen_contents =
     (let content_sig = take 100 doc in
      if content_sig \<notin> seen_contents then
        (case annotate float_ok (h a) of
           Inl e \<Rightarrow> (h, Inl e)
         | Inr md \<Rightarrow>
             (let h' = h(a := md); processed' = processed @ [(doc, a)] in
              if limit \<le> int (length processed') then (h', Inr processed')
              else results_loop float_ok limit rest h' processed'
                     (insert content_sig seen_contents)))
      else if limit \<le> int (length processed) then (h, Inr processed)
      else results_loop float_ok limit rest h processed seen_contents)"

definition process_results ::
  "(string \<Rightarrow> bool) \<Rightarrow> heap \<Rightarrow> envelope \<Rightarrow> int \<Rightarrow> heap \<times> (error + envelope)" where
  "process_results float_ok h results limit =
     (case documents results of
        [] \<Rightarrow> (h, Inr \<lparr>documents = [[]], metadatas = [[]]\<rparr>)
      | docs0 # _ \<Rightarrow>
          if docs0 = [] then (h, Inr \<lparr>documents = [[]], metadatas = [[]]\<rparr>)
          else (case metadatas results of
                  [] \<Rightarrow> (h, Inl IndexError)
                | metas0 # _ \<Rightarrow>
                    (case results_loop float_ok limit (zip docs0 metas0) h [] {} of
                       (h', Inl e) \<Rightarrow> (h', Inl e)
                     | (h', Inr processed) \<Rightarrow>
                         (h', Inr \<lparr>documents = [map fst processed],
                                   metadatas = [map snd processed]\<rparr>))))"

text \<open>The engine's \<^verbatim>\<open>collection.query(query_texts, n_results, where)\<close> is a parameter: from
  the heap it yields a heap with the result's metadata objects and the envelope, or fails.\<close>

type_synonym engine =
  "heap \<Rightarrow> string list \<Rightarrow> int \<Rightarrow> pyval option \<Rightarrow> heap \<times> (error + envelope)"

definition search ::
  "(string \<Rightarrow> bool) \<Rightarrow> engine \<Rightarrow> heap \<Rightarrow> string \<Rightarrow> (string \<times> pyval) list option \<Rightarrow> int \<Rightarrow>
   heap \<times> (error + envelope)" where
  "search float_ok query_engine h query filter_metadata limit =
     (case build_where_clause filter_metadata of
        Inl e \<Rightarrow> (h, Inl e)
      | Inr where_clause \<Rightarrow>
          (case query_engine h [query] (limit * 2) where_clause of
             (h1, Inl e) \<Rightarrow> (h1, Inl e)
           | (h1, Inr results) \<Rightarrow> process_results float_ok h1 results limit))"

section \<open>Notions used to state the properties\<close>

text \<open>The pairs \<^verbatim>\<open>zip(results['documents'][0], results['metadatas'][0])\<close> of an envelope.\<close>

definition raw_pairs :: "envelope \<Rightarrow> (string \<times> addr) list" where
  "raw_pairs results =
     (case documents results of
        [] \<Rightarrow> []
      | docs0 # _ \<Rightarrow> (case metadatas results of [] \<Rightarrow> [] | metas0 # _ \<Rightarrow> zip docs0 metas0))"

text \<open>The first pair of every signature, in the order of the list: what a forward pass that
  keeps the first-seen of each signature retains when nothing stops it.\<close>

fun first_seen :: "string set \<Rightarrow> (string \<times> addr) list \<Rightarrow> (string \<times> addr) list" where
  "first_seen seen [] = []"
| "first_seen seen ((doc, a) # rest) =
     (if take 100 doc \<in> seen then first_seen seen rest
      else (doc, a) # first_seen (insert (take 100 doc) seen) rest)"

text \<open>The number of non-empty pieces between the commas of a string field: the length of
  the list that \<^verbatim>\<open>[float(x) for x in metadata.get(key, '').split(',') if x]\<close> builds.\<close>

definition piece_count :: "pydict \<Rightarrow> string \<Rightarrow> nat" where
  "piece_count md key =
     (case map_of md key of
        Some (MStr s) \<Rightarrow> length (filter (\<lambda>x. x \<noteq> []) (split_on CHR '','' s))
      | _ \<Rightarrow> 0)"

text \<open>The test \<^verbatim>\<open>isinstance(value, dict) and "$in" in value\<close>, and the items whose
  \<^verbatim>\<open>$in\<close> operand cannot be iterated.\<close>

definition is_in_filter :: "pyval \<Rightarrow> bool" where
  "is_in_filter val = (case val of PDict d \<Rightarrow> map_of d ''$in'' \<noteq> None | _ \<Rightarrow> False)"

definition bad_in_operand :: "string \<times> pyval \<Rightarrow> bool" where
  "bad_in_operand kv =
     (case snd kv of
        PDict d \<Rightarrow> (case map_of d ''$in'' of None \<Rightarrow> False | Some operand \<Rightarrow> isl (py_iter operand))
      | _ \<Rightarrow> False)"

text \<open>The filter shapes the specification supports: per field, a plain value to be matched
  exactly, or the "any of" operator \<^verbatim>\<open>{"$in": [...]}\<close> with a list of plain values.\<close>

fun is_plain :: "pyval \<Rightarrow> bool" where
  "is_plain (PStr s) = True"
| "is_plain (PInt i) = True"
| "is_plain (PBool b) = True"
| "is_plain v = False"

fun spec_supported_value :: "pyval \<Rightarrow> bool" where
  "spec_supported_value (PDict [(k, PList vs)]) = (k = ''$in'' \<and> list_all is_plain vs)"
| "spec_supported_value v = is_plain v"

definition spec_supported_filter :: "(string \<times> pyval) list \<Rightarrow> bool" where
  "spec_supported_filter items = list_all (\<lambda>kv. spec_supported_value (snd kv)) items"

section \<open>Concrete inputs of the examples\<close>

text \<open>A splitter that returns a short text as its only window, a filing with a given text,
  an engine that accepts every request and finds nothing, a heap of empty dictionaries, a heap
  and an envelope with a duplicate, and a recogniser of decimal literals for \<open>float_ok\<close>.\<close>

definition demo_externals :: "unit externals" where
  "demo_externals =
     \<lparr>split_text = (\<lambda>s. if s = [] then [] else [s]),
      str_float = (\<lambda>r. ''1.0''),
      str_datetime = (\<lambda>d. ''2024-01-31 00:00:00'')\<rparr>"

definition demo_filing :: "string \<Rightarrow> unit SECDocument" where
  "demo_filing txt =
     \<lparr>filing_id = ''F1'', company_name = ''Acme'', ticker = ''ACM'', filing_type = ''10-K'',
      filing_date = (), document_text = txt, metadata = [], sections = []\<rparr>"

definition empty_engine :: engine where
  "empty_engine h query_texts n_results where_clause = (h, Inr \<lparr>documents = [[]], metadatas = [[]]\<rparr>)"

definition empty_heap :: heap where
  "empty_heap a = []"

definition demo_heap :: heap where
  "demo_heap a =
     (if a = 0 then [(''has_metrics'', MStr ''true''), (''currency_amounts'', MStr ''1.0,2.5''),
                     (''percentages'', MStr ''12.3'')]
      else if a = 2 then [(''has_metrics'', MStr ''true''), (''currency_amounts'', MStr ''n/a'')]
      else [(''has_metrics'', MStr ''false'')])"

definition demo_results :: envelope where
  "demo_results = \<lparr>documents = [[''a'', ''a'', ''b'']], metadatas = [[0, 1, 1]]\<rparr>"

definition decimal_ok :: "string \<Rightarrow> bool" where
  "decimal_ok s = (\<not> isl (float_decimal s))"

section \<open>Facts about splitting and the segmenter\<close>

lemma split_on_not_Nil: "split_on sep s \<noteq> []"
  by (induction s) (auto split: list.splits)

lemma concat_split_on: "concat (map ((#) sep) (split_on sep s)) = sep # s"
  by (induction s) (auto split: list.splits)

lemma identify_section_Nil: "identify_section [] = ''other''"
  by code_simp

lemma foldl_section_step_other:
  "\<forall>line\<in>set ls. identify_section line = ''other'' \<Longrightarrow>
   foldl section_step (secs, ct, cty) ls = (secs, ct @ concat (map ((#) NL) ls), cty)"
  by (induction ls arbitrary: ct) auto

lemma tags_foldl:
  "ct \<noteq> [] \<Longrightarrow>
   map snd (flush (foldl section_step (secs, ct, cty) ls)) =
     map snd secs @ cty # filter (\<lambda>t. t \<noteq> ''other'') (map identify_section ls)"
proof (induction ls arbitrary: secs ct cty)
  case Nil
  then show ?case by simp
next
  case (Cons l ls)
  show ?case
  proof (cases "identify_section l = ''other''")
    case True
    have "ct @ NL # l \<noteq> []" by simp
    from Cons.IH [OF this] True show ?thesis by simp
  next
    case False
    then have "l \<noteq> []" using identify_section_Nil by auto
    from Cons.IH [OF this] False Cons.prems show ?thesis by (simp add: Let_def)
  qed
qed

lemma tags_split_into_sections:
  "map snd (split_into_sections text) =
     (if identify_section (hd (split_on NL text)) = ''other'' then [''other''] else []) @
     filter (\<lambda>t. t \<noteq> ''other'') (map identify_section (split_on NL text))"
proof (cases "split_on NL text")
  case Nil
  then show ?thesis by (simp add: split_on_not_Nil)
next
  case (Cons l ls)
  show ?thesis
  proof (cases "identify_section l = ''other''")
    case True
    have "[NL] @ l \<noteq> []" by simp
    from tags_foldl [OF this, of "[]" "''other''" ls] True show ?thesis
      by (simp add: split_into_sections_def Cons)
  next
    case False
    then have "l \<noteq> []" using identify_section_Nil by auto
    from tags_foldl [OF this, of "[]" "identify_section l" ls] False show ?thesis
      by (simp add: split_into_sections_def Cons Let_def)
  qed
qed

text \<open>
  C2 (as amended). When no line of the text matches a section pattern, the segmenter returns
  exactly one span, tagged \<open>other\<close>, and its text is the input text after one newline: the
  loop puts a newline before every line it appends, the first one included.
\<close>

theorem split_into_sections_no_header:
  assumes "\<forall>line\<in>set (split_on NL text). identify_section line = ''other''"
  shows "split_into_sections text = [(NL # text, ''other'')]"
  using assms by (simp add: split_into_sections_def foldl_section_step_other concat_split_on)

theorem split_into_sections_no_header_witness:
  "split_on NL ''abc'' = [''abc''] \<and> identify_section ''abc'' = ''other'' \<and>
   split_into_sections ''abc'' = [(NL # ''abc'', ''other'')]"
proof -
  have s: "split_on NL ''abc'' = [''abc'']" by simp
  have i: "identify_section ''abc'' = ''other''" by code_simp
  from s i have h: "\<forall>line\<in>set (split_on NL ''abc''). identify_section line = ''other''"
    by simp
  from split_into_sections_no_header [OF h] s i show ?thesis by simp
qed

text \<open>
  C2 as stated fails: for the text \<open>abc\<close>, which has one line and no header, the span's text
  is not the input text.
\<close>

theorem split_into_sections_no_header_counterexample:
  "split_on NL ''abc'' = [''abc''] \<and> identify_section ''abc'' = ''other'' \<and>
   split_into_sections ''abc'' \<noteq> [(''abc'', ''other'')]"
  by code_simp

text \<open>
  C4 (as amended). A new span is started exactly when the line's own tag is not \<open>other\<close>,
  whatever the tag of the span being accumulated: the span so far is emitted if its text is
  not empty, and the new span is seeded with the line and carries the line's tag. A line
  tagged \<open>other\<close> is appended, after a newline, to the current span, whose tag it leaves as
  it is. So the tags of the spans are those of the header lines, in order, after one
  \<open>other\<close> when the first line is not a header.
\<close>

theorem section_step_new_span:
  "(identify_section line \<noteq> ''other'' \<longrightarrow>
      section_step (secs, ct, cty) line = (flush (secs, ct, cty), line, identify_section line)) \<and>
   (identify_section line = ''other'' \<longrightarrow>
      section_step (secs, ct, cty) line = (secs, ct @ NL # line, cty)) \<and>
   map snd (split_into_sections text) =
     (if identify_section (hd (split_on NL text)) = ''other'' then [''other''] else []) @
     filter (\<lambda>t. t \<noteq> ''other'') (map identify_section (split_on NL text))"
  by (simp add: tags_split_into_sections Let_def)

theorem section_step_new_span_witness:
  "identify_section ''Business'' \<noteq> ''other'' \<and>
   section_step ([], ''Business'', ''business'') ''Business'' =
     ([(''Business'', ''business'')], ''Business'', ''business'') \<and>
   identify_section ''We sell.'' = ''other'' \<and>
   section_step ([], ''Business'', ''business'') ''We sell.'' =
     ([], ''Business'' @ NL # ''We sell.'', ''business'') \<and>
   map snd (split_into_sections (''Intro'' @ NL # ''Business'' @ NL # ''Business'')) =
     [''other'', ''business'', ''business'']"
proof -
  have a: "identify_section ''Business'' = ''business''" by code_simp
  have b: "identify_section ''We sell.'' = ''other''" by code_simp
  have c: "identify_section ''Intro'' = ''other''" by code_simp
  have d: "split_on NL (''Intro'' @ NL # ''Business'' @ NL # ''Business'') =
      [''Intro'', ''Business'', ''Business'']" by code_simp
  from section_step_new_span [of "''Business''" "[]" "''Business''" "''business''"
      "''Intro'' @ NL # ''Business'' @ NL # ''Business''"]
    section_step_new_span [of "''We sell.''" "[]" "''Business''" "''business''" "''abc''"]
    a b c d
  show ?thesis by simp
qed

text \<open>
  C4 as stated fails in both directions: a line with the tag of the current span opens a new
  span, and a line tagged \<open>other\<close> after a header, whose tag differs from the span's, is
  appended to it.
\<close>

theorem section_step_new_span_counterexample:
  "split_into_sections (''Risk Factors'' @ NL # ''Risk Factors'') =
     [(''Risk Factors'', ''risk_factors''), (''Risk Factors'', ''risk_factors'')] \<and>
   identify_section ''We face risks.'' = ''other'' \<and>
   split_into_sections (''Risk Factors'' @ NL # ''We face risks.'') =
     [(''Risk Factors'' @ NL # ''We face risks.'', ''risk_factors'')]"
  by code_simp

section \<open>The matcher finds exactly the language of a pattern\<close>

lemma star_iter_complete:
  assumes f: "\<And>m t c. m \<in> A \<Longrightarrow> \<exists>c'. (t, c') \<in> set (f (m @ t) c)"
  shows "v \<in> star_lang A \<Longrightarrow> length (v @ t) \<le> n \<Longrightarrow>
    \<exists>c'. (t, c') \<in> set (star_iter f n (v @ t) c)"
proof (induction v arbitrary: n c rule: star_lang.induct)
  case star_empty
  then show ?case by (cases n) auto
next
  case (star_more u v)
  from star_more.prems star_more.hyps(2) obtain k where n: "n = Suc k"
    by (cases n) auto
  from f [OF star_more.hyps(1), of "v @ t" c] obtain c1 where
    c1: "(v @ t, c1) \<in> set (f (u @ v @ t) c)" by blast
  have "length (v @ t) \<le> k" using star_more.prems star_more.hyps(2) n
    by (cases u) auto
  from star_more.IH [OF this, of c1] obtain c' where
    c': "(t, c') \<in> set (star_iter f k (v @ t) c1)" by blast
  have "length (v @ t) < length (u @ v @ t)" using star_more.hyps(2) by (cases u) auto
  with c1 c' show ?case unfolding n by (auto intro!: bexI [of _ "(v @ t, c1)"])
qed

lemma rmatch_complete:
  "m \<in> lang ci r \<Longrightarrow> \<exists>c'. (t, c') \<in> set (rmatch ci r (m @ t) c)"
proof (induction r arbitrary: m t c)
  case (Chars cs)
  then obtain x where "m = [x]" "char_in ci x cs" by auto
  then show ?case by simp
next
  case (NotChars cs)
  then obtain x where "m = [x]" "\<not> char_in ci x cs" by auto
  then show ?case by simp
next
  case Eps
  then show ?case by simp
next
  case (Seq r1 r2)
  then obtain u v where m: "m = u @ v" and u: "u \<in> lang ci r1" and v: "v \<in> lang ci r2"
    by auto
  from Seq.IH(1) [OF u, of "v @ t" c] obtain c1 where
    c1: "(v @ t, c1) \<in> set (rmatch ci r1 (u @ v @ t) c)" by blast
  from Seq.IH(2) [OF v, of t c1] obtain c2 where
    c2: "(t, c2) \<in> set (rmatch ci r2 (v @ t) c1)" by blast
  from c1 c2 show ?case unfolding m by (auto intro!: bexI [of _ "(v @ t, c1)"])
next
  case (Alt r1 r2)
  from Alt.prems have "m \<in> lang ci r1 \<or> m \<in> lang ci r2" by simp
  then show ?case
  proof
    assume "m \<in> lang ci r1"
    from Alt.IH(1) [OF this, of t c] show ?thesis by auto
  next
    assume "m \<in> lang ci r2"
    from Alt.IH(2) [OF this, of t c] show ?thesis by auto
  qed
next
  case (Star r)
  have "\<exists>c'. (t, c') \<in> set (star_iter (\<lambda>s' c'. rmatch ci r s' c') (length (m @ t)) (m @ t) c)"
    by (rule star_iter_complete [where A = "lang ci r"]) (use Star in auto)
  then show ?case by simp
next
  case (Group n r)
  from Group.IH [of m t c] Group.prems obtain c' where
    "(t, c') \<in> set (rmatch ci r (m @ t) c)" by auto
  then show ?case by (force simp: image_iff)
qed

lemma star_iter_sound:
  assumes f: "\<And>s c t c'. (t, c') \<in> set (f s c) \<Longrightarrow> \<exists>m. s = m @ t \<and> m \<in> A"
  shows "(t, c') \<in> set (star_iter f n s c) \<Longrightarrow> \<exists>m. s = m @ t \<and> m \<in> star_lang A"
proof (induction n arbitrary: s c)
  case 0
  then show ?case by (auto intro: star_lang.intros)
next
  case (Suc n)
  show ?case
  proof (cases "(t, c') = (s, c)")
    case True
    then show ?thesis by (auto intro: star_lang.intros)
  next
    case False
    with Suc.prems obtain s1 c1 where
      s1: "(s1, c1) \<in> set (f s c)" and len: "length s1 < length s"
      and rest: "(t, c') \<in> set (star_iter f n s1 c1)"
      by (auto split: if_splits)
    from f [OF s1] obtain u where u: "s = u @ s1" "u \<in> A" by blast
    from Suc.IH [OF rest] obtain v where v: "s1 = v @ t" "v \<in> star_lang A" by blast
    from u len have "u \<noteq> []" by auto
    with u v have "u @ v \<in> star_lang A" by (auto intro: star_lang.intros)
    with u v show ?thesis by auto
  qed
qed

lemma rmatch_sound:
  "(t, c') \<in> set (rmatch ci r s c) \<Longrightarrow> \<exists>m. s = m @ t \<and> m \<in> lang ci r"
proof (induction r arbitrary: s c t c')
  case (Seq r1 r2)
  then obtain s1 c1 where s1: "(s1, c1) \<in> set (rmatch ci r1 s c)"
    and t: "(t, c') \<in> set (rmatch ci r2 s1 c1)" by auto
  from Seq.IH(1) [OF s1] obtain u where u: "s = u @ s1" "u \<in> lang ci r1" by blast
  from Seq.IH(2) [OF t] obtain v where v: "s1 = v @ t" "v \<in> lang ci r2" by blast
  from u v show ?case by auto
next
  case (Alt r1 r2)
  from Alt.prems have "(t, c') \<in> set (rmatch ci r1 s c) \<or> (t, c') \<in> set (rmatch ci r2 s c)"
    by simp
  then show ?case
  proof
    assume "(t, c') \<in> set (rmatch ci r1 s c)"
    from Alt.IH(1) [OF this] show ?thesis by auto
  next
    assume "(t, c') \<in> set (rmatch ci r2 s c)"
    from Alt.IH(2) [OF this] show ?thesis by auto
  qed
next
  case (Star r)
  from Star.prems have "(t, c') \<in> set (star_iter (\<lambda>s' c'. rmatch ci r s' c') (length s) s c)"
    by simp
  then have "\<exists>m. s = m @ t \<and> m \<in> star_lang (lang ci r)"
    by (rule star_iter_sound [rotated]) (use Star.IH in blast)
  then show ?case by simp
next
  case (Group n r)
  then show ?case by auto
qed (auto split: list.splits if_splits)

lemma re_fullmatch_lang: "re_fullmatch ci r s \<longleftrightarrow> s \<in> lang ci r"
proof
  assume "re_fullmatch ci r s"
  then obtain c' where "([], c') \<in> set (rmatch ci r s Map.empty)"
    by (auto simp: re_fullmatch_def)
  from rmatch_sound [OF this] show "s \<in> lang ci r" by auto
next
  assume "s \<in> lang ci r"
  from rmatch_complete [OF this, of "[]" Map.empty] show "re_fullmatch ci r s"
    by (force simp: re_fullmatch_def)
qed

lemma re_search_append: "re_search ci r s \<Longrightarrow> re_search ci r (pre @ s)"
  by (induction pre) auto

lemma re_search_iff:
  "re_search ci r s \<longleftrightarrow> (\<exists>pre m post. s = pre @ m @ post \<and> m \<in> lang ci r)"
proof
  show "re_search ci r s \<Longrightarrow> \<exists>pre m post. s = pre @ m @ post \<and> m \<in> lang ci r"
  proof (induction s)
    case Nil
    then obtain t c' where "(t, c') \<in> set (rmatch ci r [] Map.empty)"
      by (cases "rmatch ci r [] Map.empty") auto
    from rmatch_sound [OF this] show ?case by auto
  next
    case (Cons x xs)
    show ?case
    proof (cases "rmatch ci r (x # xs) Map.empty")
      case Nil
      with Cons obtain pre m post where "xs = pre @ m @ post" "m \<in> lang ci r" by auto
      then have "x # xs = (x # pre) @ m @ post \<and> m \<in> lang ci r" by simp
      then show ?thesis by blast
    next
      case (Cons a list)
      then obtain t c' where "(t, c') \<in> set (rmatch ci r (x # xs) Map.empty)"
        by (cases a) auto
      from rmatch_sound [OF this] obtain m where "x # xs = [] @ m @ t \<and> m \<in> lang ci r"
        by auto
      then show ?thesis by blast
    qed
  qed
next
  assume "\<exists>pre m post. s = pre @ m @ post \<and> m \<in> lang ci r"
  then obtain pre m post where s: "s = pre @ m @ post" and m: "m \<in> lang ci r" by blast
  from rmatch_complete [OF m, of post Map.empty]
  have ne: "rmatch ci r (m @ post) Map.empty \<noteq> []" by auto
  then have "re_search ci r (m @ post)" by (cases "m @ post") auto
  then show "re_search ci r s" unfolding s by (rule re_search_append)
qed

lemma first_match_nth:
  "i < length ps \<Longrightarrow> re_search True (snd (ps ! i)) text \<Longrightarrow>
   \<forall>j<i. \<not> re_search True (snd (ps ! j)) text \<Longrightarrow>
   first_match ps text = fst (ps ! i)"
proof (induction ps arbitrary: i)
  case Nil
  then show ?case by simp
next
  case (Cons p ps)
  obtain tag pat where p: "p = (tag, pat)" by (cases p)
  show ?case
  proof (cases i)
    case 0
    with Cons.prems p show ?thesis by simp
  next
    case (Suc k)
    from Cons.prems(3) Suc have no: "\<not> re_search True pat text"
      using p by (auto dest: spec [of _ 0])
    from Cons.prems(3) Suc have "\<forall>j<k. \<not> re_search True (snd (ps ! j)) text"
      by (auto dest: spec [of _ "Suc j" for j])
    from Cons.IH [OF _ _ this] Cons.prems(1,2) Suc no p show ?thesis by simp
  qed
qed

lemma section_tags_not_other: "p \<in> set section_patterns \<Longrightarrow> fst p \<noteq> ''other''"
  by (auto simp: section_patterns_def)

text \<open>
  C9 (as amended). The classifier searches its patterns anywhere in the line, ignoring case.
  A line \<open>pre @ m @ post\<close> that contains a phrase \<open>m\<close> of the pattern at position \<open>i\<close> of the
  table is never tagged \<open>other\<close>: its tag is the tag of the first pattern of the table that is
  found in the line, a pattern at position \<open>i\<close> or before it. So it is the tag at position
  \<open>i\<close> when no pattern before it in the table is found in the line. In the segmenter such a
  line starts a new span, and the output for a text with that line has a span with the line's
  tag.
\<close>

theorem identify_section_unanchored:
  assumes "i < length section_patterns"
    and "m \<in> lang True (snd (section_patterns ! i))"
  shows "(\<exists>k\<le>i. identify_section (pre @ m @ post) = fst (section_patterns ! k) \<and>
            re_search True (snd (section_patterns ! k)) (pre @ m @ post) \<and>
            (\<forall>j<k. \<not> re_search True (snd (section_patterns ! j)) (pre @ m @ post))) \<and>
         ((\<forall>j<i. \<not> re_search True (snd (section_patterns ! j)) (pre @ m @ post)) \<longrightarrow>
            identify_section (pre @ m @ post) = fst (section_patterns ! i)) \<and>
         identify_section (pre @ m @ post) \<noteq> ''other'' \<and>
         section_step (secs, ct, cty) (pre @ m @ post) =
           (flush (secs, ct, cty), pre @ m @ post, identify_section (pre @ m @ post)) \<and>
         (pre @ m @ post \<in> set (split_on NL text) \<longrightarrow>
            identify_section (pre @ m @ post) \<in> snd ` set (split_into_sections text))"
proof -
  let ?line = "pre @ m @ post"
  have found: "re_search True (snd (section_patterns ! i)) ?line"
    using assms(2) by (auto simp: re_search_iff)
  define k where "k = (LEAST j. re_search True (snd (section_patterns ! j)) ?line)"
  have k: "re_search True (snd (section_patterns ! k)) ?line"
    unfolding k_def using found by (rule LeastI)
  have kle: "k \<le> i" unfolding k_def using found by (rule Least_le)
  have kmin: "\<forall>j<k. \<not> re_search True (snd (section_patterns ! j)) ?line"
    unfolding k_def using not_less_Least by blast
  from kle assms(1) have klen: "k < length section_patterns" by simp
  have idk: "identify_section ?line = fst (section_patterns ! k)"
    unfolding identify_section_def using klen k kmin by (rule first_match_nth)
  from kle idk k kmin have least: "\<exists>k\<le>i. identify_section ?line = fst (section_patterns ! k) \<and>
      re_search True (snd (section_patterns ! k)) ?line \<and>
      (\<forall>j<k. \<not> re_search True (snd (section_patterns ! j)) ?line)"
    by blast
  have "fst (section_patterns ! k) \<noteq> ''other''"
    using klen by (intro section_tags_not_other nth_mem)
  with idk have other: "identify_section ?line \<noteq> ''other''" by simp
  have first: "(\<forall>j<i. \<not> re_search True (snd (section_patterns ! j)) ?line) \<longrightarrow>
      identify_section ?line = fst (section_patterns ! i)"
    unfolding identify_section_def using assms(1) found by (auto intro: first_match_nth)
  have step: "section_step (secs, ct, cty) ?line =
      (flush (secs, ct, cty), ?line, identify_section ?line)"
    using other by (simp add: Let_def)
  have span: "identify_section ?line \<in> snd ` set (split_into_sections text)"
    if mem: "?line \<in> set (split_on NL text)"
  proof -
    from mem other have "identify_section ?line \<in>
        set (filter (\<lambda>t. t \<noteq> ''other'') (map identify_section (split_on NL text)))"
      by simp
    then have "identify_section ?line \<in> set (map snd (split_into_sections text))"
      unfolding tags_split_into_sections by simp
    then show ?thesis by simp
  qed
  from least first other step span show ?thesis by blast
qed

theorem identify_section_unanchored_witness:
  "(2::nat) < length section_patterns \<and>
   ''bUsiNess'' \<in> lang True (snd (section_patterns ! 2)) \<and>
   \<not> re_search True (snd (section_patterns ! 0)) (''Our '' @ ''bUsiNess'' @ '' grew'') \<and>
   \<not> re_search True (snd (section_patterns ! 1)) (''Our '' @ ''bUsiNess'' @ '' grew'') \<and>
   identify_section (''Our '' @ ''bUsiNess'' @ '' grew'') = ''business'' \<and>
   section_step ([], ''Intro'', ''other'') (''Our '' @ ''bUsiNess'' @ '' grew'') =
     ([(''Intro'', ''other'')], ''Our bUsiNess grew'', ''business'') \<and>
   ''Our '' @ ''bUsiNess'' @ '' grew'' \<in> set (split_on NL (''Intro'' @ NL # ''Our bUsiNess grew'')) \<and>
   ''business'' \<in> snd ` set (split_into_sections (''Intro'' @ NL # ''Our bUsiNess grew'')) \<and>
   split_into_sections (''Intro'' @ NL # ''Our bUsiNess grew'') =
     [(NL # ''Intro'', ''other''), (''Our bUsiNess grew'', ''business'')]"
proof -
  define line where "line = ''Our '' @ ''bUsiNess'' @ '' grew''"
  define doc where "doc = ''Intro'' @ NL # ''Our bUsiNess grew''"
  have len: "(2::nat) < length section_patterns" by (simp add: section_patterns_def)
  have "re_fullmatch True (snd (section_patterns ! 2)) ''bUsiNess''" by code_simp
  then have m: "''bUsiNess'' \<in> lang True (snd (section_patterns ! 2))"
    by (simp only: re_fullmatch_lang)
  have n0: "\<not> re_search True (snd (section_patterns ! 0)) line"
    unfolding line_def by code_simp
  have n1: "\<not> re_search True (snd (section_patterns ! 1)) line"
    unfolding line_def by code_simp
  have none: "\<forall>j<2. \<not> re_search True (snd (section_patterns ! j)) line"
  proof (intro allI impI)
    fix j :: nat assume "j < 2"
    then have "j = 0 \<or> j = 1" by auto
    with n0 n1 show "\<not> re_search True (snd (section_patterns ! j)) line" by auto
  qed
  have tag: "fst (section_patterns ! 2) = ''business''" by (simp add: section_patterns_def)
  have mem: "line \<in> set (split_on NL doc)" unfolding line_def doc_def by simp
  note T = identify_section_unanchored [OF len m, of "''Our ''" "'' grew''" "[]" "''Intro''"
      "''other''" doc, folded line_def]
  have a: "identify_section line = ''business''"
    using T [THEN conjunct2, THEN conjunct1, THEN mp, OF none] tag by simp
  have b: "section_step ([], ''Intro'', ''other'') line =
      ([(''Intro'', ''other'')], ''Our bUsiNess grew'', ''business'')"
    using T [THEN conjunct2, THEN conjunct2, THEN conjunct2, THEN conjunct1] a
    by (simp add: line_def)
  have c: "''business'' \<in> snd ` set (split_into_sections doc)"
    using T [THEN conjunct2, THEN conjunct2, THEN conjunct2, THEN conjunct2, THEN mp, OF mem] a
    by simp
  have d: "split_into_sections doc =
      [(NL # ''Intro'', ''other''), (''Our bUsiNess grew'', ''business'')]"
    unfolding doc_def by code_simp
  from len m n0 n1 a b mem c d show ?thesis unfolding line_def doc_def by (intro conjI)
qed

text \<open>
  C9 as stated fails: \<open>Financial Statements\<close> is a phrase of the pattern tagged
  \<open>financial_statements\<close>, but a line that holds it and, further on, the word \<open>Business\<close> is
  tagged \<open>business\<close>, whose pattern stands before it in the table.
\<close>

theorem identify_section_unanchored_counterexample:
  "''Financial Statements'' \<in> lang True (snd (section_patterns ! 3)) \<and>
   fst (section_patterns ! 3) = ''financial_statements'' \<and>
   identify_section (''Financial Statements'' @ '' of the Business'') = ''business'' \<and>
   identify_section (''Financial Statements'' @ '' of the Business'') \<noteq> ''financial_statements''"
proof -
  have "re_fullmatch True (snd (section_patterns ! 3)) ''Financial Statements''" by code_simp
  then have m: "''Financial Statements'' \<in> lang True (snd (section_patterns ! 3))"
    by (simp only: re_fullmatch_lang)
  have tag: "fst (section_patterns ! 3) = ''financial_statements''"
    by (simp add: section_patterns_def)
  have i: "identify_section (''Financial Statements'' @ '' of the Business'') = ''business''"
    by code_simp
  from m tag i show ?thesis by simp
qed

section \<open>The metric extractor, the processor and the record keys\<close>

text \<open>
  C1. On the text of the example the currency pattern captures \<open>1\<close> and no scale word, since
  its fraction \<^verbatim>\<open>(?:\.\d{2})?\<close> wants exactly two digits: the currency sequence is \<open>[1.0]\<close>,
  not \<open>[1500000.0]\<close>; the percentage sequence is \<open>[12.3]\<close>. With two digits after the point, or
  with thousands separators, the amount is stripped of its commas and scaled.
\<close>

theorem extract_metrics_example:
  "extract_metrics ''$1.5 million in revenue and a 12.3% increase'' =
     Inr \<lparr>currency_amounts = [1], percentages = [123 / 10]\<rparr> \<and>
   extract_metrics ''$1.50 million'' = Inr \<lparr>currency_amounts = [1500000], percentages = []\<rparr> \<and>
   extract_metrics ''$1,234 billion'' =
     Inr \<lparr>currency_amounts = [1234000000000], percentages = []\<rparr>"
  by code_simp

text \<open>
  C8. A filing whose text is empty is processed into the empty chunk list, without error.
\<close>

theorem process_document_empty_text:
  "document_text document = [] \<Longrightarrow> process_document ext document = Inr []"
  by (simp add: process_document_def)

theorem process_document_empty_text_witness:
  "document_text (demo_filing []) = [] \<and>
   process_document demo_externals (demo_filing []) = Inr []"
proof -
  have h: "document_text (demo_filing []) = []" by (simp add: demo_filing_def)
  from process_document_empty_text [OF h, of demo_externals] h show ?thesis by simp
qed

text \<open>The key of a chunk is made of the filing's identifier and of the index of the chunk
  within its section; the section does not enter it.\<close>

lemma record_id_make_chunk:
  "make_chunk ext document section_type n_chunks (i, c) = Inr ch \<Longrightarrow>
   record_id ch = Inr (filing_id document @ ''_'' @ str_int (int i))"
  by (auto simp: make_chunk_def record_id_def split: sum.splits)

text \<open>
  C3. The filing with the text \<open>Risk Factors\<close>, newline, \<open>Business\<close> segments into two
  sections of one chunk each; both chunks have the index 0, and the adapter gives both
  records the key \<open>F1_0\<close>.
\<close>

theorem record_ids_collide:
  "map snd (split_into_sections (''Risk Factors'' @ NL # ''Business'')) =
     [''risk_factors'', ''business''] \<and>
   (case process_document demo_externals (demo_filing (''Risk Factors'' @ NL # ''Business'')) of
      Inl e \<Rightarrow> Inl e
    | Inr chunks \<Rightarrow>
        (case add_documents chunks of
           Inl e \<Rightarrow> Inl e
         | Inr None \<Rightarrow> Inr []
         | Inr (Some (texts, metas, ids)) \<Rightarrow> Inr (zip texts ids))) =
     Inr [(''Risk Factors'', ''F1_0''), (''Business'', ''F1_0'')]"
  by code_simp

section \<open>The filter translation\<close>

lemma map_err_Inr_D:
  "map_err f xs = Inr ys \<Longrightarrow> list_all2 (\<lambda>x y. f x = Inr y) xs ys"
  by (induction xs arbitrary: ys) (auto split: sum.splits)

lemma map_err_Inl_iff:
  "(\<exists>e. map_err f xs = Inl e) \<longleftrightarrow> (\<exists>x\<in>set xs. isl (f x))"
  by (induction xs) (auto split: sum.splits simp: isl_def)

lemma map_err_Inl_error:
  "map_err f xs = Inl e \<Longrightarrow> \<exists>x\<in>set xs. f x = Inl e"
  by (induction xs) (auto split: sum.splits)

lemma where_condition_plain:
  "\<not> is_in_filter val \<Longrightarrow> where_condition (key, val) = Inr (PDict [(key, val)])"
  by (auto simp: where_condition_def is_in_filter_def split: pyval.splits option.splits)

lemma py_iter_Inl: "py_iter x = Inl e \<longleftrightarrow> e = TypeError \<and> isl (py_iter x)"
  by (cases x) auto

lemma where_condition_Inl:
  "where_condition kv = Inl e \<longleftrightarrow> e = TypeError \<and> bad_in_operand kv"
proof -
  obtain key val where kv: "kv = (key, val)" by (cases kv)
  show ?thesis
  proof (cases "is_in_filter val")
    case False
    then have "\<not> bad_in_operand (key, val)"
      by (cases val) (auto simp: is_in_filter_def bad_in_operand_def)
    with False kv show ?thesis by (simp add: where_condition_plain)
  next
    case True
    then obtain d operand where val: "val = PDict d" and op: "map_of d ''$in'' = Some operand"
      by (cases val) (auto simp: is_in_filter_def)
    show ?thesis
    proof (cases "py_iter operand")
      case (Inl e')
      then have "e' = TypeError" by (simp add: py_iter_Inl)
      with Inl kv val op show ?thesis
        by (auto simp: where_condition_def bad_in_operand_def)
    next
      case (Inr vs)
      with kv val op show ?thesis
        by (simp add: where_condition_def bad_in_operand_def)
    qed
  qed
qed

lemma build_where_clause_Inl:
  "build_where_clause fm = Inl e \<longleftrightarrow>
     e = TypeError \<and> (\<exists>items. fm = Some items \<and> (\<exists>kv\<in>set items. bad_in_operand kv))"
proof
  assume a: "build_where_clause fm = Inl e"
  then obtain items where fm: "fm = Some items" and me: "map_err where_condition items = Inl e"
    by (auto simp: build_where_clause_def split: option.splits if_splits sum.splits)
  from map_err_Inl_error [OF me] obtain kv where "kv \<in> set items" "where_condition kv = Inl e"
    by blast
  with fm show "e = TypeError \<and> (\<exists>items. fm = Some items \<and> (\<exists>kv\<in>set items. bad_in_operand kv))"
    by (auto simp: where_condition_Inl)
next
  assume "e = TypeError \<and> (\<exists>items. fm = Some items \<and> (\<exists>kv\<in>set items. bad_in_operand kv))"
  then obtain items kv where e: "e = TypeError" and fm: "fm = Some items"
    and kv: "kv \<in> set items" "bad_in_operand kv" by blast
  from kv have "where_condition kv = Inl TypeError" by (simp add: where_condition_Inl)
  with kv have "\<exists>x\<in>set items. isl (where_condition x)" by (auto simp: isl_def)
  then obtain e' where e': "map_err where_condition items = Inl e'"
    using map_err_Inl_iff [of where_condition items] by blast
  from map_err_Inl_error [OF this] have "e' = TypeError" by (auto simp: where_condition_Inl)
  with e' fm kv e show "build_where_clause fm = Inl e"
    by (auto simp: build_where_clause_def)
qed

text \<open>
  C6. No filter, or an empty one, gives no filter expression. A filter with one field and a
  value that is not an \<^verbatim>\<open>$in\<close> mapping is passed on as it is. A field whose value holds
  \<^verbatim>\<open>$in\<close> with a list becomes the \<^verbatim>\<open>$or\<close> of one exact-match clause per element. A filter
  with several fields becomes the \<^verbatim>\<open>$and\<close> of the clauses of its fields, in their order.
\<close>

theorem build_where_clause_translation:
  "build_where_clause None = Inr None \<and>
   build_where_clause (Some []) = Inr None \<and>
   (\<not> is_in_filter val \<longrightarrow>
      build_where_clause (Some [(key, val)]) = Inr (Some (PDict [(key, val)]))) \<and>
   (map_of d ''$in'' = Some (PList vs) \<longrightarrow>
      where_condition (key, PDict d) =
        Inr (PDict [(''$or'', PList (map (\<lambda>v. PDict [(key, v)]) vs))]) \<and>
      build_where_clause (Some [(key, PDict d)]) =
        Inr (Some (PDict [(''$or'', PList (map (\<lambda>v. PDict [(key, v)]) vs))]))) \<and>
   (2 \<le> length items \<and> \<not> (\<exists>kv\<in>set items. bad_in_operand kv) \<longrightarrow>
      (\<exists>conditions. build_where_clause (Some items) = Inr (Some (PDict [(''$and'', PList conditions)])) \<and>
         list_all2 (\<lambda>kv c. where_condition kv = Inr c) items conditions))"
proof -
  have multi: "\<exists>conditions. build_where_clause (Some items) =
        Inr (Some (PDict [(''$and'', PList conditions)])) \<and>
      list_all2 (\<lambda>kv c. where_condition kv = Inr c) items conditions"
    if len: "2 \<le> length items" and ok: "\<not> (\<exists>kv\<in>set items. bad_in_operand kv)"
  proof -
    have "\<not> (\<exists>e. map_err where_condition items = Inl e)"
      using ok by (auto simp: map_err_Inl_iff isl_def where_condition_Inl)
    then obtain conditions where c: "map_err where_condition items = Inr conditions"
      by (cases "map_err where_condition items") auto
    then have n: "list_all2 (\<lambda>kv c. where_condition kv = Inr c) items conditions"
      by (rule map_err_Inr_D)
    then have l: "length conditions = length items"
      by (simp add: list_all2_lengthD)
    from len have "items \<noteq> []" by auto
    with c l len have "build_where_clause (Some items) =
        Inr (Some (PDict [(''$and'', PList conditions)]))"
      by (simp add: build_where_clause_def)
    with l n show ?thesis by blast
  qed
  have single: "where_condition (key, PDict d) =
      Inr (PDict [(''$or'', PList (map (\<lambda>v. PDict [(key, v)]) vs))])"
    if "map_of d ''$in'' = Some (PList vs)"
    using that by (simp add: where_condition_def)
  have none: "build_where_clause None = Inr None" "build_where_clause (Some []) = Inr None"
    by (simp_all add: build_where_clause_def)
  have plain: "build_where_clause (Some [(key, val)]) = Inr (Some (PDict [(key, val)]))"
    if "\<not> is_in_filter val"
    using that by (simp add: build_where_clause_def where_condition_plain)
  have single': "build_where_clause (Some [(key, PDict d)]) =
      Inr (Some (PDict [(''$or'', PList (map (\<lambda>v. PDict [(key, v)]) vs))]))"
    if "map_of d ''$in'' = Some (PList vs)"
    using single [OF that] by (simp add: build_where_clause_def)
  from none plain single single' multi show ?thesis by blast
qed

theorem build_where_clause_translation_witness:
  "\<not> is_in_filter (PStr ''ACM'') \<and>
   build_where_clause (Some [(''ticker'', PStr ''ACM'')]) =
     Inr (Some (PDict [(''ticker'', PStr ''ACM'')])) \<and>
   map_of [(''$in'', PList [PStr ''K'', PStr ''Q''])] ''$in'' = Some (PList [PStr ''K'', PStr ''Q'']) \<and>
   build_where_clause (Some [(''ticker'', PDict [(''$in'', PList [PStr ''K'', PStr ''Q''])])]) =
     Inr (Some (PDict [(''$or'', PList [PDict [(''ticker'', PStr ''K'')],
                                       PDict [(''ticker'', PStr ''Q'')]])])) \<and>
   2 \<le> length [(''ticker'', PStr ''ACM''), (''form'', PDict [(''$in'', PList [PStr ''K'', PStr ''Q''])])] \<and>
   \<not> (\<exists>kv\<in>set [(''ticker'', PStr ''ACM''), (''form'', PDict [(''$in'', PList [PStr ''K'', PStr ''Q''])])].
        bad_in_operand kv) \<and>
   (\<exists>conditions.
      build_where_clause
        (Some [(''ticker'', PStr ''ACM''), (''form'', PDict [(''$in'', PList [PStr ''K'', PStr ''Q''])])]) =
        Inr (Some (PDict [(''$and'', PList conditions)])) \<and>
      length conditions = Suc (Suc 0))"
proof -
  define val where "val = PStr ''ACM''"
  define key where "key = ''ticker''"
  define d where "d = [(''$in'', PList [PStr ''K'', PStr ''Q''])]"
  define vs where "vs = [PStr ''K'', PStr ''Q'']"
  define items where "items = [(''ticker'', PStr ''ACM''), (''form'', PDict d)]"
  have a: "\<not> is_in_filter val" by (simp add: val_def is_in_filter_def)
  have b: "map_of d ''$in'' = Some (PList vs)" by (simp add: d_def vs_def)
  have c: "2 \<le> length items" by (simp add: items_def)
  have d: "\<not> (\<exists>kv\<in>set items. bad_in_operand kv)"
    by (simp add: items_def d_def bad_in_operand_def)
  note T = build_where_clause_translation [of val key d vs items]
  from T a have e: "build_where_clause (Some [(key, val)]) = Inr (Some (PDict [(key, val)]))"
    by blast
  from T b have g: "build_where_clause (Some [(key, PDict d)]) =
      Inr (Some (PDict [(''$or'', PList (map (\<lambda>v. PDict [(key, v)]) vs))]))"
    by blast
  from T c d obtain conditions where
    "build_where_clause (Some items) = Inr (Some (PDict [(''$and'', PList conditions)]))"
    "list_all2 (\<lambda>kv c. where_condition kv = Inr c) items conditions"
    by blast
  then have f: "\<exists>conditions. build_where_clause (Some items) =
        Inr (Some (PDict [(''$and'', PList conditions)])) \<and> length conditions = length items"
    by (auto dest: list_all2_lengthD)
  show ?thesis
    using a b c d e g f unfolding val_def key_def d_def vs_def items_def by simp
qed

text \<open>
  C7 (as amended). The translation validates nothing. It raises only when the \<^verbatim>\<open>$in\<close>
  operand of some field cannot be iterated (it is \<^verbatim>\<open>None\<close>, a truth value or an integer):
  then the search fails with \<open>TypeError\<close> before the engine is asked, and the heap is as it
  was. Every other filter, supported or not, is translated and passed to the engine, and the
  search is the engine's query followed by the reconciler.
\<close>

theorem search_filter_errors:
  "((\<exists>kv\<in>set items. bad_in_operand kv) \<longrightarrow>
      search float_ok query_engine h query (Some items) limit = (h, Inl TypeError)) \<and>
   (\<not> (\<exists>kv\<in>set items. bad_in_operand kv) \<longrightarrow>
      (\<exists>where_clause. build_where_clause (Some items) = Inr where_clause \<and>
         search float_ok query_engine h query (Some items) limit =
           (case query_engine h [query] (limit * 2) where_clause of
              (h1, Inl e) \<Rightarrow> (h1, Inl e)
            | (h1, Inr results) \<Rightarrow> process_results float_ok h1 results limit)))"
proof (intro conjI impI)
  assume "\<exists>kv\<in>set items. bad_in_operand kv"
  then have "build_where_clause (Some items) = Inl TypeError"
    by (simp add: build_where_clause_Inl)
  then show "search float_ok query_engine h query (Some items) limit = (h, Inl TypeError)"
    by (simp add: search_def)
next
  assume "\<not> (\<exists>kv\<in>set items. bad_in_operand kv)"
  then have "\<And>e. build_where_clause (Some items) \<noteq> Inl e"
    by (simp add: build_where_clause_Inl)
  then obtain where_clause where w: "build_where_clause (Some items) = Inr where_clause"
    by (cases "build_where_clause (Some items)") auto
  then have "search float_ok query_engine h query (Some items) limit =
      (case query_engine h [query] (limit * 2) where_clause of
         (h1, Inl e) \<Rightarrow> (h1, Inl e)
       | (h1, Inr results) \<Rightarrow> process_results float_ok h1 results limit)"
    by (simp add: search_def)
  with w show "\<exists>where_clause. build_where_clause (Some items) = Inr where_clause \<and>
      search float_ok query_engine h query (Some items) limit =
        (case query_engine h [query] (limit * 2) where_clause of
           (h1, Inl e) \<Rightarrow> (h1, Inl e)
         | (h1, Inr results) \<Rightarrow> process_results float_ok h1 results limit)"
    by blast
qed

theorem search_filter_errors_witness:
  "(\<exists>kv\<in>set [(''ticker'', PDict [(''$in'', PInt 5)])]. bad_in_operand kv) \<and>
   search decimal_ok empty_engine empty_heap ''risk'' (Some [(''ticker'', PDict [(''$in'', PInt 5)])]) 5 =
     (empty_heap, Inl TypeError) \<and>
   \<not> (\<exists>kv\<in>set [(''ticker'', PList [PStr ''A''])]. bad_in_operand kv) \<and>
   (\<exists>where_clause. build_where_clause (Some [(''ticker'', PList [PStr ''A''])]) = Inr where_clause \<and>
      search decimal_ok empty_engine empty_heap ''risk'' (Some [(''ticker'', PList [PStr ''A''])]) 5 =
        (case empty_engine empty_heap [''risk''] (5 * 2) where_clause of
           (h1, Inl e) \<Rightarrow> (h1, Inl e)
         | (h1, Inr results) \<Rightarrow> process_results decimal_ok h1 results 5))"
proof -
  define bad where "bad = [(''ticker'', PDict [(''$in'', PInt 5)])]"
  define good where "good = [(''ticker'', PList [PStr ''A''])]"
  define q where "q = ''risk''"
  have a: "\<exists>kv\<in>set bad. bad_in_operand kv" by (simp add: bad_def bad_in_operand_def)
  have b: "\<not> (\<exists>kv\<in>set good. bad_in_operand kv)" by (simp add: good_def bad_in_operand_def)
  from search_filter_errors [of bad decimal_ok empty_engine empty_heap q 5] a
  have c: "search decimal_ok empty_engine empty_heap q (Some bad) 5 = (empty_heap, Inl TypeError)"
    by blast
  from search_filter_errors [of good decimal_ok empty_engine empty_heap q 5] b
  have d: "\<exists>where_clause. build_where_clause (Some good) = Inr where_clause \<and>
      search decimal_ok empty_engine empty_heap q (Some good) 5 =
        (case empty_engine empty_heap [q] (5 * 2) where_clause of
           (h1, Inl e) \<Rightarrow> (h1, Inl e)
         | (h1, Inr results) \<Rightarrow> process_results decimal_ok h1 results 5)"
    by blast
  from a c b d show ?thesis unfolding bad_def good_def q_def by (intro conjI)
qed

text \<open>
  C7 as stated fails. The filters \<^verbatim>\<open>{"ticker": {"$in": "AB"}}\<close> (the operand is a string,
  not a list) and \<^verbatim>\<open>{"ticker": ["A"]}\<close> (a list where a plain value is expected) are not
  supported shapes. The first is silently turned into a filter on the tickers \<open>A\<close> and \<open>B\<close>,
  the second is passed on as it is, and with an engine that accepts the request the search
  returns a result.
\<close>

theorem search_filter_errors_counterexample:
  "\<not> spec_supported_filter [(''ticker'', PDict [(''$in'', PStr ''AB'')])] \<and>
   build_where_clause (Some [(''ticker'', PDict [(''$in'', PStr ''AB'')])]) =
     Inr (Some (PDict [(''$or'', PList [PDict [(''ticker'', PStr ''A'')],
                                       PDict [(''ticker'', PStr ''B'')]])])) \<and>
   snd (search decimal_ok empty_engine empty_heap ''risk''
          (Some [(''ticker'', PDict [(''$in'', PStr ''AB'')])]) 5) =
     Inr \<lparr>documents = [[]], metadatas = [[]]\<rparr> \<and>
   \<not> spec_supported_filter [(''ticker'', PList [PStr ''A''])] \<and>
   build_where_clause (Some [(''ticker'', PList [PStr ''A''])]) =
     Inr (Some (PDict [(''ticker'', PList [PStr ''A''])])) \<and>
   snd (search decimal_ok empty_engine empty_heap ''risk'' (Some [(''ticker'', PList [PStr ''A''])]) 5) =
     Inr \<lparr>documents = [[]], metadatas = [[]]\<rparr>"
  by (simp add: spec_supported_filter_def build_where_clause_def where_condition_def
      search_def empty_engine_def process_results_def)

section \<open>The result reconciler\<close>

lemma first_seen_fresh:
  "p \<in> set (first_seen seen xs) \<Longrightarrow> take 100 (fst p) \<notin> seen \<and> p \<in> set xs"
  by (induction seen xs rule: first_seen.induct) (auto split: if_splits)

lemma first_seen_distinct: "distinct (map (\<lambda>p. take 100 (fst p)) (first_seen seen xs))"
  by (induction seen xs rule: first_seen.induct) (auto dest: first_seen_fresh)

lemma results_loop_Cons_new:
  assumes "take 100 doc \<notin> seen"
  shows "results_loop float_ok limit ((doc, a) # rest) h processed seen =
     (case annotate float_ok (h a) of
        Inl e \<Rightarrow> (h, Inl e)
      | Inr md \<Rightarrow>
          if limit \<le> int (length processed) + 1 then (h(a := md), Inr (processed @ [(doc, a)]))
          else results_loop float_ok limit rest (h(a := md)) (processed @ [(doc, a)])
                 (insert (take 100 doc) seen))"
  using assms by (simp add: Let_def split: sum.splits)

lemma results_loop_Cons_seen:
  assumes "take 100 doc \<in> seen"
  shows "results_loop float_ok limit ((doc, a) # rest) h processed seen =
     (if limit \<le> int (length processed) then (h, Inr processed)
      else results_loop float_ok limit rest h processed seen)"
  using assms by simp

lemma results_loop_first_seen:
  "results_loop float_ok limit xs h processed seen = (h', Inr out) \<Longrightarrow>
   int (length processed) < limit \<Longrightarrow>
   out = processed @ take (nat limit - length processed) (first_seen seen xs)"
proof (induction xs arbitrary: h processed seen)
  case Nil
  then show ?case by simp
next
  case (Cons x xs)
  obtain doc a where x: "x = (doc, a)" by (cases x)
  show ?case
  proof (cases "take 100 doc \<in> seen")
    case True
    with Cons.prems x have "results_loop float_ok limit xs h processed seen = (h', Inr out)"
      by (simp add: results_loop_Cons_seen del: results_loop.simps)
    from Cons.IH [OF this Cons.prems(2)] True x show ?thesis by simp
  next
    case False
    from Cons.prems(1) obtain md where md: "annotate float_ok (h a) = Inr md"
      unfolding x results_loop_Cons_new [OF False]
      by (cases "annotate float_ok (h a)") auto
    have pos: "0 < nat limit - length processed" using Cons.prems(2) by auto
    then obtain k where k: "nat limit - length processed = Suc k"
      by (cases "nat limit - length processed") auto
    show ?thesis
    proof (cases "limit \<le> int (length processed) + 1")
      case True
      with Cons.prems(1) md have out: "out = processed @ [(doc, a)]"
        unfolding x results_loop_Cons_new [OF False] by simp
      from True Cons.prems(2) have "k = 0" using k by auto
      with out k False x show ?thesis by simp
    next
      case stop: False
      with Cons.prems(1) md have
        "results_loop float_ok limit xs (h(a := md)) (processed @ [(doc, a)])
           (insert (take 100 doc) seen) = (h', Inr out)"
        unfolding x results_loop_Cons_new [OF False] by simp
      from Cons.IH [OF this] stop
      have "out = (processed @ [(doc, a)]) @
          take (nat limit - length (processed @ [(doc, a)])) (first_seen (insert (take 100 doc) seen) xs)"
        by simp
      moreover have "nat limit - length (processed @ [(doc, a)]) = k" using k by simp
      ultimately show ?thesis using k False x by simp
    qed
  qed
qed

lemma results_loop_short_circuit:
  "results_loop float_ok limit xs h processed seen = (h', Inr out) \<Longrightarrow>
   int (length processed) < limit \<Longrightarrow> limit \<le> int (length out) \<Longrightarrow>
   results_loop float_ok limit (xs @ ys) h processed seen = (h', Inr out)"
proof (induction xs arbitrary: h processed seen)
  case Nil
  then show ?case by simp
next
  case (Cons x xs)
  obtain doc a where x: "x = (doc, a)" by (cases x)
  show ?case
  proof (cases "take 100 doc \<in> seen")
    case True
    with Cons.prems x have "results_loop float_ok limit xs h processed seen = (h', Inr out)"
      by (simp add: results_loop_Cons_seen del: results_loop.simps)
    from Cons.IH [OF this Cons.prems(2,3)] True x Cons.prems(2) show ?thesis
      by (simp add: results_loop_Cons_seen del: results_loop.simps)
  next
    case False
    from Cons.prems(1) obtain md where md: "annotate float_ok (h a) = Inr md"
      unfolding x results_loop_Cons_new [OF False]
      by (cases "annotate float_ok (h a)") auto
    show ?thesis
    proof (cases "limit \<le> int (length processed) + 1")
      case True
      with Cons.prems(1) md show ?thesis
        unfolding x append_Cons results_loop_Cons_new [OF False] by simp
    next
      case stop: False
      with Cons.prems(1) md have r:
        "results_loop float_ok limit xs (h(a := md)) (processed @ [(doc, a)])
           (insert (take 100 doc) seen) = (h', Inr out)"
        unfolding x results_loop_Cons_new [OF False] by simp
      have lt: "int (length (processed @ [(doc, a)])) < limit" using stop by simp
      have "results_loop float_ok limit ((doc, a) # (xs @ ys)) h processed seen =
          results_loop float_ok limit (xs @ ys) (h(a := md)) (processed @ [(doc, a)])
            (insert (take 100 doc) seen)"
        unfolding results_loop_Cons_new [OF False] using stop md by simp
      also have "\<dots> = (h', Inr out)" by (rule Cons.IH [OF r lt Cons.prems(3)])
      finally show ?thesis unfolding x by simp
    qed
  qed
qed

lemma process_results_loop:
  assumes "process_results float_ok h results limit = (h', Inr out)"
  shows "results_loop float_ok limit (raw_pairs results) h [] {} = (h', Inr (raw_pairs out)) \<and>
         documents out = [map fst (raw_pairs out)] \<and> metadatas out = [map snd (raw_pairs out)]"
proof (cases "documents results")
  case Nil
  with assms show ?thesis by (auto simp: process_results_def raw_pairs_def)
next
  case docs: (Cons docs0 ds)
  show ?thesis
  proof (cases "docs0 = []")
    case True
    with assms docs show ?thesis
      by (auto simp: process_results_def raw_pairs_def split: list.splits)
  next
    case ne: False
    show ?thesis
    proof (cases "metadatas results")
      case Nil
      with assms docs ne show ?thesis by (simp add: process_results_def)
    next
      case (Cons metas0 ms)
      obtain h1 r where loop: "results_loop float_ok limit (zip docs0 metas0) h [] {} = (h1, r)"
        by (cases "results_loop float_ok limit (zip docs0 metas0) h [] {}")
      with assms docs ne Cons obtain processed where
        "r = Inr processed" "h1 = h'"
        "out = \<lparr>documents = [map fst processed], metadatas = [map snd processed]\<rparr>"
        by (cases r) (auto simp: process_results_def)
      with loop docs Cons show ?thesis by (simp add: raw_pairs_def zip_map_fst_snd)
    qed
  qed
qed

text \<open>
  C5 (as amended). For a limit of at least 1, a result of the reconciler holds the first
  \<open>limit\<close> pairs of the raw list that are the first of their 100-character signature, in the
  raw order: at most \<open>limit\<close> pairs, no two with the same signature. Once \<open>limit\<close> pairs are
  collected the pass stops: whatever follows in the raw list is not looked at.
\<close>

theorem process_results_limit_dedup:
  assumes "process_results float_ok h results limit = (h', Inr out)" and "1 \<le> limit"
  shows "documents out = [map fst (raw_pairs out)] \<and>
         metadatas out = [map snd (raw_pairs out)] \<and>
         raw_pairs out = take (nat limit) (first_seen {} (raw_pairs results)) \<and>
         length (raw_pairs out) \<le> nat limit \<and>
         distinct (map (\<lambda>p. take 100 (fst p)) (raw_pairs out)) \<and>
         (limit \<le> int (length (raw_pairs out)) \<longrightarrow>
            results_loop float_ok limit (raw_pairs results @ later) h [] {} =
              (h', Inr (raw_pairs out)))"
proof -
  from process_results_loop [OF assms(1)] have
    loop: "results_loop float_ok limit (raw_pairs results) h [] {} = (h', Inr (raw_pairs out))"
    and shape: "documents out = [map fst (raw_pairs out)]" "metadatas out = [map snd (raw_pairs out)]"
    by simp_all
  have lt: "int (length ([] :: (string \<times> addr) list)) < limit" using assms(2) by simp
  from results_loop_first_seen [OF loop lt]
  have eq: "raw_pairs out = take (nat limit) (first_seen {} (raw_pairs results))" by simp
  then have len: "length (raw_pairs out) \<le> nat limit" by simp
  have dist: "distinct (map (\<lambda>p. take 100 (fst p)) (raw_pairs out))"
    unfolding eq take_map [symmetric] by (rule distinct_take) (rule first_seen_distinct)
  have short: "results_loop float_ok limit (raw_pairs results @ later) h [] {} =
      (h', Inr (raw_pairs out))" if "limit \<le> int (length (raw_pairs out))"
    using loop lt that by (rule results_loop_short_circuit)
  from shape eq len dist short show ?thesis by blast
qed

theorem process_results_limit_dedup_witness:
  "snd (process_results decimal_ok demo_heap demo_results 2) =
     Inr \<lparr>documents = [[''a'', ''b'']], metadatas = [[0, 1]]\<rparr> \<and>
   (1::int) \<le> 2 \<and>
   raw_pairs \<lparr>documents = [[''a'', ''b'']], metadatas = [[0, 1]]\<rparr> =
     take (nat 2) (first_seen {} (raw_pairs demo_results)) \<and>
   length (raw_pairs \<lparr>documents = [[''a'', ''b'']], metadatas = [[0, 1]]\<rparr>) \<le> nat 2 \<and>
   snd (results_loop decimal_ok 2 (raw_pairs demo_results @ [(''c'', 2)]) demo_heap [] {}) =
     Inr [(''a'', 0), (''b'', 1)]"
proof -
  define out where "out = \<lparr>documents = [[''a'', ''b'']], metadatas = [[0::nat, 1]]\<rparr>"
  define h' where "h' = fst (process_results decimal_ok demo_heap demo_results 2)"
  have s: "snd (process_results decimal_ok demo_heap demo_results 2) = Inr out"
    unfolding out_def by code_simp
  have p: "process_results decimal_ok demo_heap demo_results 2 = (h', Inr out)"
    unfolding h'_def s [symmetric] by simp
  have l: "(1::int) \<le> 2" by simp
  have r: "raw_pairs out = [(''a'', 0), (''b'', 1)]" by (simp add: out_def raw_pairs_def)
  note T = process_results_limit_dedup [OF p l, of "[(''c'', 2)]"]
  from T have a: "raw_pairs out = take (nat 2) (first_seen {} (raw_pairs demo_results))"
    and b: "length (raw_pairs out) \<le> nat 2" by blast+
  from T r have "results_loop decimal_ok 2 (raw_pairs demo_results @ [(''c'', 2)]) demo_heap [] {} =
      (h', Inr (raw_pairs out))" by simp
  then have c: "snd (results_loop decimal_ok 2 (raw_pairs demo_results @ [(''c'', 2)]) demo_heap [] {}) =
      Inr [(''a'', 0), (''b'', 1)]" by (simp add: r)
  from s l a b c show ?thesis unfolding out_def by (intro conjI)
qed

text \<open>
  C5 as stated fails for a limit below 1: the test of the limit comes after the first pair
  has been appended, so with the limit 0 one pair is returned.
\<close>

theorem process_results_limit_dedup_counterexample:
  "snd (process_results decimal_ok empty_heap \<lparr>documents = [[''a'', ''b'']], metadatas = [[0, 1]]\<rparr> 0) =
     Inr \<lparr>documents = [[''a'']], metadatas = [[0]]\<rparr>"
  by code_simp

lemma parse_floats_length:
  "parse_floats float_ok md key = Inr xs \<Longrightarrow> length xs = piece_count md key"
  by (auto simp: parse_floats_def piece_count_def Let_def
      split: option.splits mval.splits if_splits)

lemma parse_floats_cong:
  "map_of md key = map_of md' key \<Longrightarrow> parse_floats float_ok md key = parse_floats float_ok md' key"
  by (simp add: parse_floats_def)

lemma annotate_unflagged:
  "map_of md ''has_metrics'' \<noteq> Some (MStr ''true'') \<Longrightarrow> annotate float_ok md = Inr md"
  by (simp add: annotate_def)

lemma annotate_flagged:
  assumes "annotate float_ok md = Inr md'" and "map_of md ''has_metrics'' = Some (MStr ''true'')"
  shows "md' = AList.update ''metrics_summary''
           (MStr (metrics_summary (piece_count md ''currency_amounts'') (piece_count md ''percentages'')))
           md"
proof -
  from assms obtain cas pcs where
    cas: "parse_floats float_ok md ''currency_amounts'' = Inr cas" and
    pcs: "parse_floats float_ok md ''percentages'' = Inr pcs" and
    md': "md' = AList.update ''metrics_summary'' (MStr (metrics_summary (length cas) (length pcs))) md"
    by (auto simp: annotate_def split: sum.splits)
  from parse_floats_length [OF cas] parse_floats_length [OF pcs] md' show ?thesis by simp
qed

lemma annotate_idem:
  assumes "annotate float_ok md = Inr md'"
  shows "annotate float_ok md' = Inr md'"
proof (cases "map_of md ''has_metrics'' = Some (MStr ''true'')")
  case False
  with assms have "md' = md" by (simp add: annotate_def)
  with assms show ?thesis by simp
next
  case True
  from assms True obtain cas pcs where
    cas: "parse_floats float_ok md ''currency_amounts'' = Inr cas" and
    pcs: "parse_floats float_ok md ''percentages'' = Inr pcs" and
    md': "md' = AList.update ''metrics_summary'' (MStr (metrics_summary (length cas) (length pcs))) md"
    by (auto simp: annotate_def split: sum.splits)
  have same: "map_of md' k = map_of md k" if "k \<noteq> ''metrics_summary''" for k
    using that by (simp add: md' update_conv')
  have flag: "map_of md' ''has_metrics'' = Some (MStr ''true'')"
    using True by (simp add: same)
  have cas': "parse_floats float_ok md' ''currency_amounts'' = Inr cas"
    using cas parse_floats_cong [of md' "''currency_amounts''" md float_ok] by (simp add: same)
  have pcs': "parse_floats float_ok md' ''percentages'' = Inr pcs"
    using pcs parse_floats_cong [of md' "''percentages''" md float_ok] by (simp add: same)
  have "annotate float_ok md' =
      Inr (AList.update ''metrics_summary'' (MStr (metrics_summary (length cas) (length pcs))) md')"
    using flag cas' pcs' by (simp add: annotate_def)
  also have "AList.update ''metrics_summary'' (MStr (metrics_summary (length cas) (length pcs))) md' = md'"
    unfolding md' by simp
  finally show ?thesis .
qed

lemma results_loop_subset:
  "results_loop float_ok limit xs h processed seen = (h', Inr out) \<Longrightarrow>
   set out \<subseteq> set processed \<union> set xs"
proof (induction xs arbitrary: h processed seen)
  case Nil
  then show ?case by simp
next
  case (Cons x xs)
  obtain doc a where x: "x = (doc, a)" by (cases x)
  show ?case
  proof (cases "take 100 doc \<in> seen")
    case True
    show ?thesis
    proof (cases "limit \<le> int (length processed)")
      case True
      with Cons.prems \<open>take 100 doc \<in> seen\<close> x show ?thesis
        by (simp add: results_loop_Cons_seen del: results_loop.simps) blast
    next
      case False
      with Cons.prems True x have "results_loop float_ok limit xs h processed seen = (h', Inr out)"
        by (simp add: results_loop_Cons_seen del: results_loop.simps)
      from Cons.IH [OF this] show ?thesis by auto
    qed
  next
    case False
    from Cons.prems(1) obtain md where md: "annotate float_ok (h a) = Inr md"
      unfolding x results_loop_Cons_new [OF False]
      by (cases "annotate float_ok (h a)") auto
    show ?thesis
    proof (cases "limit \<le> int (length processed) + 1")
      case True
      with Cons.prems(1) md have "out = processed @ [(doc, a)]"
        unfolding x results_loop_Cons_new [OF False] by simp
      with x show ?thesis by auto
    next
      case stop: False
      with Cons.prems(1) md have
        "results_loop float_ok limit xs (h(a := md)) (processed @ [(doc, a)])
           (insert (take 100 doc) seen) = (h', Inr out)"
        unfolding x results_loop_Cons_new [OF False] by simp
      from Cons.IH [OF this] x show ?thesis by auto
    qed
  qed
qed

lemma results_loop_heap:
  "results_loop float_ok limit xs hc processed seen = (h', Inr out) \<Longrightarrow>
   \<forall>a. a \<in> snd ` set processed \<longrightarrow> annotate float_ok (h a) = Inr (hc a) \<Longrightarrow>
   \<forall>a. a \<notin> snd ` set processed \<longrightarrow> hc a = h a \<Longrightarrow>
   (\<forall>a. a \<in> snd ` set out \<longrightarrow> annotate float_ok (h a) = Inr (h' a)) \<and>
   (\<forall>a. a \<notin> snd ` set out \<longrightarrow> h' a = h a)"
proof (induction xs arbitrary: hc processed seen)
  case Nil
  then show ?case by simp
next
  case (Cons x xs)
  obtain doc a where x: "x = (doc, a)" by (cases x)
  show ?case
  proof (cases "take 100 doc \<in> seen")
    case True
    show ?thesis
    proof (cases "limit \<le> int (length processed)")
      case True
      with Cons.prems(1) \<open>take 100 doc \<in> seen\<close> x have "h' = hc" "out = processed"
        by (simp_all add: results_loop_Cons_seen del: results_loop.simps)
      with Cons.prems(2,3) show ?thesis by simp
    next
      case False
      with Cons.prems(1) True x have "results_loop float_ok limit xs hc processed seen = (h', Inr out)"
        by (simp add: results_loop_Cons_seen del: results_loop.simps)
      from Cons.IH [OF this Cons.prems(2,3)] show ?thesis .
    qed
  next
    case False
    from Cons.prems(1) obtain md where md: "annotate float_ok (hc a) = Inr md"
      unfolding x results_loop_Cons_new [OF False]
      by (cases "annotate float_ok (hc a)") auto
    have md_h: "annotate float_ok (h a) = Inr md"
    proof (cases "a \<in> snd ` set processed")
      case True
      with Cons.prems(2) have "annotate float_ok (h a) = Inr (hc a)" by blast
      moreover from annotate_idem [OF this] md have "md = hc a" by simp
      ultimately show ?thesis by simp
    next
      case False
      with Cons.prems(3) md show ?thesis by simp
    qed
    have inv1: "\<forall>b. b \<in> snd ` set (processed @ [(doc, a)]) \<longrightarrow>
        annotate float_ok (h b) = Inr ((hc(a := md)) b)"
      using Cons.prems(2) md_h by auto
    have inv2: "\<forall>b. b \<notin> snd ` set (processed @ [(doc, a)]) \<longrightarrow> (hc(a := md)) b = h b"
      using Cons.prems(3) by auto
    show ?thesis
    proof (cases "limit \<le> int (length processed) + 1")
      case True
      with Cons.prems(1) md have "out = processed @ [(doc, a)]" "h' = hc(a := md)"
        unfolding x results_loop_Cons_new [OF False] by simp_all
      with inv1 inv2 show ?thesis by simp
    next
      case stop: False
      with Cons.prems(1) md have
        "results_loop float_ok limit xs (hc(a := md)) (processed @ [(doc, a)])
           (insert (take 100 doc) seen) = (h', Inr out)"
        unfolding x results_loop_Cons_new [OF False] by simp
      from Cons.IH [OF this inv1 inv2] show ?thesis .
    qed
  qed
qed

text \<open>The reconciler returns whenever the fields of every flagged dictionary can be
  converted and the envelope has a list of metadata for its list of documents.\<close>

lemma results_loop_returns:
  "\<forall>a. \<exists>md. annotate float_ok (h a) = Inr md \<Longrightarrow>
   \<exists>h' out. results_loop float_ok limit xs h processed seen = (h', Inr out)"
proof (induction xs arbitrary: h processed seen)
  case Nil
  then show ?case by simp
next
  case (Cons x xs)
  obtain doc a where x: "x = (doc, a)" by (cases x)
  show ?case
  proof (cases "take 100 doc \<in> seen")
    case True
    from Cons.IH [OF Cons.prems, of processed seen] True show ?thesis
      unfolding x results_loop_Cons_seen [OF True] by simp
  next
    case False
    from Cons.prems obtain md where md: "annotate float_ok (h a) = Inr md" by blast
    have "\<forall>b. \<exists>md'. annotate float_ok ((h(a := md)) b) = Inr md'"
      using Cons.prems annotate_idem [OF md] by auto
    from Cons.IH [OF this, of "processed @ [(doc, a)]" "insert (take 100 doc) seen"]
    obtain h' out where r: "results_loop float_ok limit xs (h(a := md)) (processed @ [(doc, a)])
        (insert (take 100 doc) seen) = (h', Inr out)" by blast
    show ?thesis
    proof (cases "limit \<le> int (length processed) + 1")
      case True
      with md show ?thesis unfolding x results_loop_Cons_new [OF False] by simp
    next
      case False
      with md have "results_loop float_ok limit ((doc, a) # xs) h processed seen =
          results_loop float_ok limit xs (h(a := md)) (processed @ [(doc, a)])
            (insert (take 100 doc) seen)"
        unfolding results_loop_Cons_new [OF \<open>take 100 doc \<notin> seen\<close>] by simp
      with r show ?thesis unfolding x by simp
    qed
  qed
qed

lemma process_results_returns:
  assumes "\<forall>a. \<exists>md. annotate float_ok (h a) = Inr md"
    and "metadatas results \<noteq> []"
  shows "\<exists>h' out. process_results float_ok h results limit = (h', Inr out)"
proof -
  from assms(2) obtain metas0 ms where m: "metadatas results = metas0 # ms"
    by (cases "metadatas results") auto
  show ?thesis
  proof (cases "documents results")
    case Nil
    then show ?thesis by (simp add: process_results_def)
  next
    case (Cons docs0 ds)
    from results_loop_returns [OF assms(1), of limit "zip docs0 metas0" "[]" "{}"]
    obtain h' out where "results_loop float_ok limit (zip docs0 metas0) h [] {} = (h', Inr out)"
      by blast
    with Cons m show ?thesis by (simp add: process_results_def)
  qed
qed

text \<open>
  C10. The reconciler changes the metadata dictionaries of the raw envelope in place. The
  pairs it returns are pairs of the raw list, with the addresses the engine gave. When it
  returns, the dictionary at the address of every retained pair whose \<open>has_metrics\<close> is the
  string \<open>true\<close> is the one the engine gave with \<open>metrics_summary\<close> set to the summary of its
  two counts: that key holds the summary and every other key holds what it held. Every other
  dictionary of the heap is as it was.
\<close>

theorem process_results_in_place:
  assumes "process_results float_ok h results limit = (h', Inr out)"
  shows "set (raw_pairs out) \<subseteq> set (raw_pairs results) \<and>
    (\<forall>a. a \<in> snd ` set (raw_pairs out) \<and> map_of (h a) ''has_metrics'' = Some (MStr ''true'') \<longrightarrow>
       h' a = AList.update ''metrics_summary''
                (MStr (metrics_summary (piece_count (h a) ''currency_amounts'')
                         (piece_count (h a) ''percentages''))) (h a) \<and>
       map_of (h' a) ''metrics_summary'' =
         Some (MStr (metrics_summary (piece_count (h a) ''currency_amounts'')
                       (piece_count (h a) ''percentages''))) \<and>
       (\<forall>k. k \<noteq> ''metrics_summary'' \<longrightarrow> map_of (h' a) k = map_of (h a) k)) \<and>
    (\<forall>a. a \<notin> snd ` set (raw_pairs out) \<or> map_of (h a) ''has_metrics'' \<noteq> Some (MStr ''true'') \<longrightarrow>
       h' a = h a)"
proof -
  from process_results_loop [OF assms] have
    loop: "results_loop float_ok limit (raw_pairs results) h [] {} = (h', Inr (raw_pairs out))"
    by simp
  from results_loop_subset [OF loop]
  have sub: "set (raw_pairs out) \<subseteq> set (raw_pairs results)" by simp
  have "(\<forall>a. a \<in> snd ` set (raw_pairs out) \<longrightarrow> annotate float_ok (h a) = Inr (h' a)) \<and>
      (\<forall>a. a \<notin> snd ` set (raw_pairs out) \<longrightarrow> h' a = h a)"
    by (rule results_loop_heap [OF loop]) simp_all
  then have ann: "\<And>a. a \<in> snd ` set (raw_pairs out) \<Longrightarrow> annotate float_ok (h a) = Inr (h' a)"
    and frame: "\<And>a. a \<notin> snd ` set (raw_pairs out) \<Longrightarrow> h' a = h a"
    by blast+
  have flagged: "h' a = AList.update ''metrics_summary''
                (MStr (metrics_summary (piece_count (h a) ''currency_amounts'')
                         (piece_count (h a) ''percentages''))) (h a) \<and>
       map_of (h' a) ''metrics_summary'' =
         Some (MStr (metrics_summary (piece_count (h a) ''currency_amounts'')
                       (piece_count (h a) ''percentages''))) \<and>
       (\<forall>k. k \<noteq> ''metrics_summary'' \<longrightarrow> map_of (h' a) k = map_of (h a) k)"
    if "a \<in> snd ` set (raw_pairs out)" "map_of (h a) ''has_metrics'' = Some (MStr ''true'')" for a
  proof -
    from annotate_flagged [OF ann [OF that(1)] that(2)]
    have eq: "h' a = AList.update ''metrics_summary''
                (MStr (metrics_summary (piece_count (h a) ''currency_amounts'')
                         (piece_count (h a) ''percentages''))) (h a)" .
    show ?thesis unfolding eq by (simp add: update_conv')
  qed
  have unflagged: "h' a = h a"
    if "a \<notin> snd ` set (raw_pairs out) \<or> map_of (h a) ''has_metrics'' \<noteq> Some (MStr ''true'')" for a
  proof (cases "a \<in> snd ` set (raw_pairs out)")
    case True
    with that have "map_of (h a) ''has_metrics'' \<noteq> Some (MStr ''true'')" by simp
    from annotate_unflagged [OF this, of float_ok] ann [OF True] show ?thesis by simp
  next
    case False
    then show ?thesis by (rule frame)
  qed
  from sub flagged unflagged show ?thesis by blast
qed

theorem process_results_in_place_witness:
  "snd (process_results decimal_ok demo_heap demo_results 2) =
     Inr \<lparr>documents = [[''a'', ''b'']], metadatas = [[0, 1]]\<rparr> \<and>
   (0::nat) \<in> snd ` set (raw_pairs \<lparr>documents = [[''a'', ''b'']], metadatas = [[0, 1]]\<rparr>) \<and>
   map_of (demo_heap 0) ''has_metrics'' = Some (MStr ''true'') \<and>
   fst (process_results decimal_ok demo_heap demo_results 2) 0 =
     [(''has_metrics'', MStr ''true''), (''currency_amounts'', MStr ''1.0,2.5''),
      (''percentages'', MStr ''12.3''),
      (''metrics_summary'', MStr ''Found 2 currency amounts and 1 percentage values'')] \<and>
   map_of (fst (process_results decimal_ok demo_heap demo_results 2) 0) ''percentages'' =
     map_of (demo_heap 0) ''percentages'' \<and>
   (2::nat) \<notin> snd ` set (raw_pairs \<lparr>documents = [[''a'', ''b'']], metadatas = [[0, 1]]\<rparr>) \<and>
   fst (process_results decimal_ok demo_heap demo_results 2) 2 = demo_heap 2"
proof -
  define out where "out = \<lparr>documents = [[''a'', ''b'']], metadatas = [[0::nat, 1]]\<rparr>"
  define h' where "h' = fst (process_results decimal_ok demo_heap demo_results 2)"
  define summary where "summary = MStr (metrics_summary (piece_count (demo_heap 0) ''currency_amounts'')
      (piece_count (demo_heap 0) ''percentages''))"
  have s: "snd (process_results decimal_ok demo_heap demo_results 2) = Inr out"
    unfolding out_def by code_simp
  have p: "process_results decimal_ok demo_heap demo_results 2 = (h', Inr out)"
    unfolding h'_def s [symmetric] by simp
  have r: "snd ` set (raw_pairs out) = {0, 1}" by (simp add: out_def raw_pairs_def)
  have in0: "(0::nat) \<in> snd ` set (raw_pairs out)" and out2: "(2::nat) \<notin> snd ` set (raw_pairs out)"
    unfolding r by simp_all
  have flag: "map_of (demo_heap 0) ''has_metrics'' = Some (MStr ''true'')"
    by (simp add: demo_heap_def)
  note T = process_results_in_place [OF p]
  note pq = conjI [OF in0 flag]
  note B = T [THEN conjunct2, THEN conjunct1, rule_format, OF pq]
  have a: "h' 0 = AList.update ''metrics_summary'' summary (demo_heap 0)"
    unfolding summary_def by (rule B [THEN conjunct1])
  have k: "''percentages'' \<noteq> ''metrics_summary''" by simp
  have b: "map_of (h' 0) ''percentages'' = map_of (demo_heap 0) ''percentages''"
    by (rule B [THEN conjunct2, THEN conjunct2, rule_format, OF k])
  note nq = disjI1 [OF out2]
  have c: "h' 2 = demo_heap 2"
    by (rule T [THEN conjunct2, THEN conjunct2, rule_format, OF nq])
  have "AList.update ''metrics_summary'' summary (demo_heap 0) =
     [(''has_metrics'', MStr ''true''), (''currency_amounts'', MStr ''1.0,2.5''),
      (''percentages'', MStr ''12.3''),
      (''metrics_summary'', MStr ''Found 2 currency amounts and 1 percentage values'')]"
    unfolding summary_def by code_simp
  with a have a': "h' 0 =
     [(''has_metrics'', MStr ''true''), (''currency_amounts'', MStr ''1.0,2.5''),
      (''percentages'', MStr ''12.3''),
      (''metrics_summary'', MStr ''Found 2 currency amounts and 1 percentage values'')]"
    by simp
  from s in0 flag a' b out2 c show ?thesis unfolding out_def h'_def by (intro conjI)
qed

end
